theory Spec2Isabelle
  imports Complex_Main
begin

section \<open>JavaScript numbers\<close>

text \<open>
  The coordinates handled by \<^verbatim>\<open>runtime.ts\<close> are JavaScript numbers. They are
  modelled as the reals extended with the three special values of IEEE 754 that the
  arithmetic of the source can produce: the two infinities and NaN. Finite arithmetic
  is exact (no rounding, no overflow) and the two zeros are identified, the positive
  one being the divisor wherever the sign of a zero decides a quotient (a width or a
  height is never the negative zero). What is proved of coordinates below is proved at
  inputs whose numbers are integers, with a division by zero or by the dividend itself:
  there the doubles of the source give the same values as this arithmetic. Nothing is
  claimed of inputs at which a double would round or overflow.
\<close>

datatype jsnum = JNum real | JPosInf | JNegInf | JNaN

fun js_neg :: "jsnum \<Rightarrow> jsnum" where
  "js_neg (JNum a) = JNum (- a)"
| "js_neg JPosInf = JNegInf"
| "js_neg JNegInf = JPosInf"
| "js_neg JNaN = JNaN"

fun js_add :: "jsnum \<Rightarrow> jsnum \<Rightarrow> jsnum" where
  "js_add JNaN _ = JNaN"
| "js_add _ JNaN = JNaN"
| "js_add (JNum a) (JNum b) = JNum (a + b)"
| "js_add JPosInf JNegInf = JNaN"
| "js_add JNegInf JPosInf = JNaN"
| "js_add JPosInf _ = JPosInf"
| "js_add JNegInf _ = JNegInf"
| "js_add _ JPosInf = JPosInf"
| "js_add _ JNegInf = JNegInf"

definition js_sub :: "jsnum \<Rightarrow> jsnum \<Rightarrow> jsnum" where
  "js_sub a b = js_add a (js_neg b)"

text \<open>The sign of a number, as the multiplication and division rules use it.\<close>

fun js_sign :: "jsnum \<Rightarrow> int" where
  "js_sign (JNum a) = (if a < 0 then - 1 else if a = 0 then 0 else 1)"
| "js_sign JPosInf = 1"
| "js_sign JNegInf = - 1"
| "js_sign JNaN = 0"

definition js_inf :: "int \<Rightarrow> jsnum" where
  "js_inf s = (if s < 0 then JNegInf else JPosInf)"

fun js_mul :: "jsnum \<Rightarrow> jsnum \<Rightarrow> jsnum" where
  "js_mul JNaN _ = JNaN"
| "js_mul _ JNaN = JNaN"
| "js_mul (JNum a) (JNum b) = JNum (a * b)"
| "js_mul a b =
     (if js_sign a = 0 \<or> js_sign b = 0 then JNaN else js_inf (js_sign a * js_sign b))"

fun js_div :: "jsnum \<Rightarrow> jsnum \<Rightarrow> jsnum" where
  "js_div JNaN _ = JNaN"
| "js_div _ JNaN = JNaN"
| "js_div (JNum a) (JNum b) =
     (if b = 0 then (if a = 0 then JNaN else js_inf (js_sign (JNum a))) else JNum (a / b))"
| "js_div (JNum a) _ = JNum 0"
| "js_div a (JNum b) = js_inf (js_sign a * (if b < 0 then - 1 else 1))"
| "js_div _ _ = JNaN"

text \<open>\<^verbatim>\<open>Math.round\<close> rounds to the nearest integer, halves towards plus infinity.\<close>

fun Math_round :: "jsnum \<Rightarrow> jsnum" where
  "Math_round (JNum a) = JNum (of_int \<lfloor>a + 1 / 2\<rfloor>)"
| "Math_round a = a"

fun Math_min :: "jsnum \<Rightarrow> jsnum \<Rightarrow> jsnum" where
  "Math_min JNaN _ = JNaN"
| "Math_min _ JNaN = JNaN"
| "Math_min JNegInf _ = JNegInf"
| "Math_min _ JNegInf = JNegInf"
| "Math_min JPosInf b = b"
| "Math_min a JPosInf = a"
| "Math_min (JNum a) (JNum b) = JNum (min a b)"

fun Math_max :: "jsnum \<Rightarrow> jsnum \<Rightarrow> jsnum" where
  "Math_max JNaN _ = JNaN"
| "Math_max _ JNaN = JNaN"
| "Math_max JPosInf _ = JPosInf"
| "Math_max _ JPosInf = JPosInf"
| "Math_max JNegInf b = b"
| "Math_max a JNegInf = a"
| "Math_max (JNum a) (JNum b) = JNum (max a b)"

text \<open>The comparison \<^verbatim>\<open>a <= b\<close>: false as soon as one side is NaN.\<close>

fun js_le :: "jsnum \<Rightarrow> jsnum \<Rightarrow> bool" where
  "js_le JNaN _ = False"
| "js_le _ JNaN = False"
| "js_le JNegInf _ = True"
| "js_le _ JPosInf = True"
| "js_le (JNum a) (JNum b) = (a \<le> b)"
| "js_le _ _ = False"

section \<open>Stage coordinates of a pointer event\<close>

text \<open>
  Modelled from the spec: the class \<^verbatim>\<open>Rectangle\<close> (\<^verbatim>\<open>rectangle.js\<close>) is not among
  the sources. \<^verbatim>\<open>Rectangle.fromBounds(-240, 240, -180, 180)\<close> is the stage bounds
  \<open>(-240, 240) \<times> (-180, 180)\<close> of the spec: left, right, bottom, top, with the width and
  height the differences of opposite sides.
\<close>

record rectangle =
  r_left :: jsnum
  r_right :: jsnum
  r_bottom :: jsnum
  r_top :: jsnum

definition fromBounds :: "real \<Rightarrow> real \<Rightarrow> real \<Rightarrow> real \<Rightarrow> rectangle" where
  "fromBounds l r b t = \<lparr>r_left = JNum l, r_right = JNum r, r_bottom = JNum b, r_top = JNum t\<rparr>"

definition width :: "rectangle \<Rightarrow> jsnum" where
  "width r = js_sub (r_right r) (r_left r)"

definition height :: "rectangle \<Rightarrow> jsnum" where
  "height r = js_sub (r_top r) (r_bottom r)"

definition stageBounds :: rectangle where
  "stageBounds = fromBounds (- 240) 240 (- 180) 180"

text \<open>What \<^verbatim>\<open>getBoundingClientRect\<close> returns, and the fields read of a pointer event.\<close>

record domrect =
  dr_left :: jsnum
  dr_top :: jsnum
  dr_width :: jsnum
  dr_height :: jsnum

record pointer_event =
  clientX :: jsnum
  clientY :: jsnum

definition stageCoordsFromPointerEvent ::
  "rectangle \<Rightarrow> domrect \<Rightarrow> pointer_event \<Rightarrow> jsnum \<times> jsnum" where
  "stageCoordsFromPointerEvent sb rect event =
     (let x = js_mul (js_sub (clientX event) (dr_left rect)) (js_div (width sb) (dr_width rect));
          y = js_mul (js_sub (clientY event) (dr_top rect)) (js_div (height sb) (dr_height rect));
          x = Math_max (r_left sb) (Math_min (r_right sb) (Math_round (js_add x (r_left sb))));
          y = Math_max (r_bottom sb) (Math_min (r_top sb) (Math_round (js_add y (r_bottom sb))))
      in (x, js_neg y))"

text \<open>A coordinate pair lies within a rectangle, bounds included.\<close>

definition within_bounds :: "rectangle \<Rightarrow> jsnum \<times> jsnum \<Rightarrow> bool" where
  "within_bounds sb p =
     (js_le (r_left sb) (fst p) \<and> js_le (fst p) (r_right sb) \<and>
      js_le (r_bottom sb) (snd p) \<and> js_le (snd p) (r_top sb))"

section \<open>The runtime and the objects it works with\<close>

text \<open>
  Objects of the host and of the collaborating modules (projects, monitors, targets,
  views, renderers, abort controllers, timers) are addresses; every address the runtime
  allocates is taken from the counter \<open>next_id\<close>.
\<close>

type_synonym project_id = nat
type_synonym monitor_id = nat
type_synonym target_id = nat
type_synonym block_id = nat
type_synonym stage_id = nat
type_synonym renderer_id = nat
type_synonym pen_id = nat
type_synonym view_id = nat
type_synonym ctrl_id = nat
type_synonym timer_id = nat
type_synonym handler_id = nat
type_synonym key = string
type_synonym position = "int \<times> int"
type_synonym bounds = "int \<times> int \<times> int \<times> int"

text \<open>The errors \<^verbatim>\<open>runtime.ts\<close> throws, by their messages.\<close>

datatype error =
    CannotStepWithoutProject  \<comment> \<open>\<^verbatim>\<open>Cannot step without a project\<close>\<close>
  | ProjectHasNoStage         \<comment> \<open>\<^verbatim>\<open>Project has no stage\<close>\<close>
  | ProjectNotSet             \<comment> \<open>\<^verbatim>\<open>Project not set\<close>\<close>

text \<open>
  Every call the runtime makes on a collaborator or on the host is recorded, in order,
  in the trace of the state: what the interpreter, the renderer, a view or the host does
  with the call is outside \<^verbatim>\<open>runtime.ts\<close>.
\<close>

datatype effect =
    Interp_setProject "project_id option"
  | Interp_setRenderer "renderer_id option"
  | Interp_stepThreads
  | Interp_launch block_id target_id   \<comment> \<open>\<^verbatim>\<open>launch([block], target, null, true)\<close>\<close>
  | Interp_startHats string key
  | Renderer_new renderer_id stage_id
  | Renderer_draw renderer_id "target_id list"
  | Renderer_destroy renderer_id
  | PenLayer_clear pen_id
  | Project_addEventListener project_id ctrl_id   \<comment> \<open>\<^verbatim>\<open>createmonitor\<close>\<close>
  | Project_register project_id
  | Project_unregister project_id
  | Monitor_addEventListener monitor_id ctrl_id   \<comment> \<open>\<^verbatim>\<open>updatemonitor\<close>\<close>
  | Monitor_update monitor_id position
  | Stage_tabIndex stage_id
  | Stage_addEventListeners stage_id ctrl_id
  | Stage_createMonitorView stage_id view_id
  | View_addEventListener view_id monitor_id ctrl_id   \<comment> \<open>\<^verbatim>\<open>sliderchange\<close>\<close>
  | View_update view_id monitor_id "position option"
  | View_setColor view_id string
  | View_remove view_id
  | Controller_abort ctrl_id
  | SliderHandler handler_id target_id int
  | Event_preventDefault
  | Target_click target_id
  | SetInterval timer_id
  | ClearInterval timer_id

text \<open>
  The fields \<^verbatim>\<open>runtime.ts\<close> reads of a monitor and of a project (\<^verbatim>\<open>monitor.js\<close> and
  \<^verbatim>\<open>project.js\<close> are not among the sources). A project's \<^verbatim>\<open>monitors\<close> pairs each
  monitor with its \<^verbatim>\<open>updateMonitorBlock\<close>.
\<close>

record monitor =
  visible :: bool
  position :: "position option"
  target :: "target_id option"
  monitorSliderHandler :: "handler_id option"
  colorCategory :: "string option"

record project_obj =
  monitors :: "(monitor_id \<times> block_id) list"
  targets :: "target_id list"
  proj_stage :: "target_id option"

text \<open>An entry of \<^verbatim>\<open>monitorViews\<close>, and the variables the two teardown closures capture.\<close>

record view_entry =
  view :: view_id
  abort :: ctrl_id

record project_teardown =
  td_project :: project_id
  td_controller :: ctrl_id

record stage_teardown =
  st_renderer :: renderer_id
  st_controller :: "ctrl_id option"

text \<open>
  The state: the fields of \<^verbatim>\<open>Runtime\<close> under their names (those of \<^verbatim>\<open>io\<close>
  included), then the objects they point to. A listener added with a signal is kept
  with the signal's controller and counts as removed once that controller has aborted.
  \<open>registered\<close> holds the projects whose \<^verbatim>\<open>register()\<close> has been called and whose
  returned callback has not run yet.
\<close>

record state =
  project :: "project_id option"
  renderer :: "renderer_id option"
  stage :: "stage_id option"
  monitorViews :: "monitor_id \<rightharpoonup> view_entry"
  steppingInterval :: "timer_id option"
  unregisterPreviousProject :: "project_teardown option"
  unsetPreviousStage :: "stage_teardown option"
  mousePosition :: "jsnum \<times> jsnum"
  mouseDown :: bool
  keysDown :: "key set"
  monitor_heap :: "monitor_id \<Rightarrow> monitor"
  project_heap :: "project_id \<Rightarrow> project_obj"
  penLayer :: "renderer_id \<Rightarrow> pen_id option"
  update_listeners :: "(monitor_id \<times> ctrl_id) list"
  create_listeners :: "(project_id \<times> ctrl_id) list"
  aborted :: "ctrl_id set"
  registered :: "project_id list"
  next_id :: nat
  trace :: "effect list"

text \<open>A call returns, or throws having changed the state up to the throw.\<close>

datatype outcome = Ok state | Threw error state

fun state_of :: "outcome \<Rightarrow> state" where
  "state_of (Ok s) = s"
| "state_of (Threw e s) = s"

text \<open>\<^verbatim>\<open>new Runtime()\<close>, over given monitors, projects and pen layers.\<close>

definition new_Runtime ::
  "(monitor_id \<Rightarrow> monitor) \<Rightarrow> (project_id \<Rightarrow> project_obj) \<Rightarrow> (renderer_id \<Rightarrow> pen_id option) \<Rightarrow> state" where
  "new_Runtime ms ps pl =
     \<lparr>project = None, renderer = None, stage = None, monitorViews = Map.empty,
      steppingInterval = None, unregisterPreviousProject = None, unsetPreviousStage = None,
      mousePosition = (JNum 0, JNum 0), mouseDown = False, keysDown = {},
      monitor_heap = ms, project_heap = ps, penLayer = pl,
      update_listeners = [], create_listeners = [], aborted = {}, registered = [],
      next_id = 0, trace = []\<rparr>"

definition emit :: "effect list \<Rightarrow> state \<Rightarrow> state" where
  "emit es s = s\<lparr>trace := trace s @ es\<rparr>"

text \<open>
  \<^verbatim>\<open>new AbortController()\<close>, whose signal starts not aborted, and
  \<^verbatim>\<open>controller.abort()\<close>.
\<close>

definition new_AbortController :: "state \<Rightarrow> ctrl_id \<times> state" where
  "new_AbortController s =
     (next_id s, s\<lparr>next_id := Suc (next_id s), aborted := aborted s - {next_id s}\<rparr>)"

definition abort_controller :: "ctrl_id \<Rightarrow> state \<Rightarrow> state" where
  "abort_controller c s = (emit [Controller_abort c] s)\<lparr>aborted := insert c (aborted s)\<rparr>"

subsection \<open>The scheduling loop\<close>

definition stop :: "state \<Rightarrow> state" where
  "stop s =
     (case steppingInterval s of
        None \<Rightarrow> s
      | Some t \<Rightarrow> (emit [ClearInterval t] s)\<lparr>steppingInterval := None\<rparr>)"

fun stepMonitors_loop :: "(monitor_id \<times> block_id) list \<Rightarrow> target_id \<Rightarrow> state \<Rightarrow> state" where
  "stepMonitors_loop [] stg s = s"
| "stepMonitors_loop ((m, updateMonitorBlock) # rest) stg s =
     (if \<not> visible (monitor_heap s m) then stepMonitors_loop rest stg s
      else stepMonitors_loop rest stg
             (emit [Interp_launch updateMonitorBlock
                      (case target (monitor_heap s m) of Some t \<Rightarrow> t | None \<Rightarrow> stg)] s))"

definition stepMonitors :: "state \<Rightarrow> outcome" where
  "stepMonitors s =
     (case project s of
        None \<Rightarrow> Ok s
      | Some p \<Rightarrow>
          (case proj_stage (project_heap s p) of
             None \<Rightarrow> Threw ProjectHasNoStage s
           | Some stg \<Rightarrow> Ok (stepMonitors_loop (monitors (project_heap s p)) stg s)))"

definition step :: "state \<Rightarrow> outcome" where
  "step s =
     (case project s of
        None \<Rightarrow> Threw CannotStepWithoutProject s
      | Some p \<Rightarrow>
          (case stepMonitors (emit [Interp_stepThreads] s) of
             Threw e s' \<Rightarrow> Threw e s'
           | Ok s' \<Rightarrow>
               Ok (case renderer s' of
                     None \<Rightarrow> s'
                   | Some r \<Rightarrow> emit [Renderer_draw r (targets (project_heap s' p))] s')))"

text \<open>
  \<^verbatim>\<open>setInterval\<close> returns a fresh handle, which is never falsy. The handle is stored
  before the immediate step, so it stays stored when that step throws.
\<close>

definition start :: "state \<Rightarrow> outcome" where
  "start s =
     (case steppingInterval s of
        Some t \<Rightarrow> Ok s
      | None \<Rightarrow>
          (let t = next_id s
           in step ((emit [SetInterval t] s)\<lparr>steppingInterval := Some t, next_id := Suc t\<rparr>)))"

subsection \<open>Monitors and their views\<close>

text \<open>
  What the collaborators answer when asked: a view's \<^verbatim>\<open>getBounds()\<close> and
  \<^verbatim>\<open>layout(rects)\<close> (\<^verbatim>\<open>monitor.js\<close>), \<^verbatim>\<open>IO.domToScratchKey\<close> (\<^verbatim>\<open>io.js\<close>), the
  renderer's \<^verbatim>\<open>pick\<close> and the stage's \<^verbatim>\<open>getBoundingClientRect()\<close>. None of them is
  among the sources, so each is a parameter.
\<close>

record collab =
  getBounds :: "view_id \<Rightarrow> bounds option"
  layout :: "view_id \<Rightarrow> bounds list \<Rightarrow> position"
  domToScratchKey :: "string \<Rightarrow> key option"
  pick :: "renderer_id \<Rightarrow> target_id list \<Rightarrow> jsnum \<Rightarrow> jsnum \<Rightarrow> target_id option"
  getBoundingClientRect :: "stage_id \<Rightarrow> domrect"

definition removeMonitorView :: "monitor_id \<Rightarrow> state \<Rightarrow> state" where
  "removeMonitorView m s =
     (case monitorViews s m of
        None \<Rightarrow> s
      | Some viewAndAbortController \<Rightarrow>
          (abort_controller (abort viewAndAbortController)
             (emit [View_remove (view viewAndAbortController)] s))
          \<lparr>monitorViews := (monitorViews s)(m := None)\<rparr>)"

text \<open>The rectangles of the other monitors of the project that have a view with bounds.\<close>

fun monitorRects ::
  "collab \<Rightarrow> (monitor_id \<rightharpoonup> view_entry) \<Rightarrow> monitor_id \<Rightarrow> (monitor_id \<times> block_id) list \<Rightarrow> bounds list" where
  "monitorRects cb mv m [] = []"
| "monitorRects cb mv m ((otherMonitor, b) # rest) =
     (if otherMonitor = m then monitorRects cb mv m rest
      else case mv otherMonitor of
             None \<Rightarrow> monitorRects cb mv m rest
           | Some viewAndAbortController \<Rightarrow>
               (case getBounds cb (view viewAndAbortController) of
                  None \<Rightarrow> monitorRects cb mv m rest
                | Some r \<Rightarrow> r # monitorRects cb mv m rest))"

text \<open>
  Fetching the view of a monitor or creating it: the new view and its abort controller
  are fresh objects, the entry is stored and the \<^verbatim>\<open>sliderchange\<close> listener is added
  under the new controller's signal.
\<close>

definition fetchOrCreateView :: "stage_id \<Rightarrow> monitor_id \<Rightarrow> state \<Rightarrow> view_entry \<times> state" where
  "fetchOrCreateView stg m s =
     (case monitorViews s m of
        Some viewAndAbortController \<Rightarrow> (viewAndAbortController, s)
      | None \<Rightarrow>
          (let v = next_id s;
               s1 = (emit [Stage_createMonitorView stg v] s)\<lparr>next_id := Suc v\<rparr>;
               (a, s2) = new_AbortController s1;
               viewAndAbortController = \<lparr>view = v, abort = a\<rparr>;
               s3 = s2\<lparr>monitorViews := (monitorViews s2)(m \<mapsto> viewAndAbortController)\<rparr>
           in (viewAndAbortController, emit [View_addEventListener v m a] s3)))"

definition handleMonitorUpdated :: "collab \<Rightarrow> monitor_id \<Rightarrow> state \<Rightarrow> state" where
  "handleMonitorUpdated cb m s =
     (case project s of
        None \<Rightarrow> s
      | Some p \<Rightarrow>
     (case stage s of
        None \<Rightarrow> s
      | Some stg \<Rightarrow>
          if \<not> visible (monitor_heap s m) then removeMonitorView m s
          else
            (let (viewAndAbortController, s1) = fetchOrCreateView stg m s;
                 v = view viewAndAbortController;
                 s2 = emit [View_update v m (position (monitor_heap s1 m))] s1;
                 s3 = (case position (monitor_heap s2 m) of
                         Some pos \<Rightarrow> s2
                       | None \<Rightarrow>
                           (let rects = monitorRects cb (monitorViews s2) m
                                          (monitors (project_heap s2 p));
                                pos = layout cb v rects
                            in (emit [Monitor_update m pos, View_update v m (Some pos)] s2)
                               \<lparr>monitor_heap := (monitor_heap s2)
                                  (m := (monitor_heap s2 m)\<lparr>position := Some pos\<rparr>)\<rparr>))
             in case colorCategory (monitor_heap s3 m) of
                  None \<Rightarrow> s3
                | Some c \<Rightarrow> emit [View_setColor v c] s3)))"

text \<open>The \<^verbatim>\<open>sliderchange\<close> listener of a view, for the monitor it was created for.\<close>

definition sliderchange :: "monitor_id \<Rightarrow> int \<Rightarrow> state \<Rightarrow> outcome" where
  "sliderchange m val s =
     (case monitorSliderHandler (monitor_heap s m) of
        None \<Rightarrow> Ok s
      | Some sliderHandler \<Rightarrow>
          (case (case target (monitor_heap s m) of
                   Some t \<Rightarrow> Some t
                 | None \<Rightarrow> (case project s of
                              None \<Rightarrow> None
                            | Some p \<Rightarrow> proj_stage (project_heap s p))) of
             None \<Rightarrow> Threw ProjectNotSet s
           | Some t \<Rightarrow> Ok (emit [SliderHandler sliderHandler t val] s)))"

text \<open>
  \<^verbatim>\<open>addEventListener\<close> with a signal adds nothing when the signal has aborted already.
  Every \<^verbatim>\<open>bind\<close> makes a new function, so the same handler can be listed twice.
\<close>

definition handleMonitorCreated :: "ctrl_id \<Rightarrow> monitor_id \<Rightarrow> state \<Rightarrow> state" where
  "handleMonitorCreated signal m s =
     (case stage s of
        None \<Rightarrow> s
      | Some stg \<Rightarrow>
          (emit [Monitor_addEventListener m signal] s)
          \<lparr>update_listeners :=
             (if signal \<in> aborted s then update_listeners s
              else update_listeners s @ [(m, signal)])\<rparr>)"

text \<open>
  The two notifications, as the monitor and the project deliver them: each listener
  that is still attached when its turn comes is called, in the order of registration:
  a listener of the list is the handler bound to its monitor (or to its signal), kept
  with the controller of the signal it was added under.
\<close>

definition deliver_updatemonitor ::
  "collab \<Rightarrow> monitor_id \<Rightarrow> monitor_id \<times> ctrl_id \<Rightarrow> state \<Rightarrow> state" where
  "deliver_updatemonitor cb m l s =
     (if fst l = m \<and> snd l \<notin> aborted s then handleMonitorUpdated cb m s else s)"

definition dispatch_updatemonitor :: "collab \<Rightarrow> monitor_id \<Rightarrow> state \<Rightarrow> state" where
  "dispatch_updatemonitor cb m s = fold (deliver_updatemonitor cb m) (update_listeners s) s"

definition deliver_createmonitor ::
  "project_id \<Rightarrow> monitor_id \<Rightarrow> project_id \<times> ctrl_id \<Rightarrow> state \<Rightarrow> state" where
  "deliver_createmonitor p m l s =
     (if fst l = p \<and> snd l \<notin> aborted s then handleMonitorCreated (snd l) m s else s)"

definition dispatch_createmonitor :: "project_id \<Rightarrow> monitor_id \<Rightarrow> state \<Rightarrow> state" where
  "dispatch_createmonitor p m s = fold (deliver_createmonitor p m) (create_listeners s) s"

subsection \<open>Binding a project\<close>

text \<open>
  Modelled from the spec: \<^verbatim>\<open>Project.register\<close> (\<^verbatim>\<open>project.js\<close>) is not among the
  sources. It registers the project and returns the callback that undoes it
  (\<open>register() \<rightarrow> teardown callback\<close>).
\<close>

definition project_register :: "project_id \<Rightarrow> state \<Rightarrow> state" where
  "project_register p s = (emit [Project_register p] s)\<lparr>registered := registered s @ [p]\<rparr>"

definition unregisterProject :: "project_id \<Rightarrow> state \<Rightarrow> state" where
  "unregisterProject p s =
     (emit [Project_unregister p] s)\<lparr>registered := remove1 p (registered s)\<rparr>"

text \<open>The closure stored in \<^verbatim>\<open>unregisterPreviousProject\<close>, run on what it captured.\<close>

definition run_unregisterPreviousProject :: "project_teardown \<Rightarrow> state \<Rightarrow> state" where
  "run_unregisterPreviousProject td s =
     (let s1 = s\<lparr>project := None\<rparr>;
          s2 = stop s1;
          s3 = fold (\<lambda>(m, b). removeMonitorView m)
                 (monitors (project_heap s2 (td_project td))) s2;
          s4 = (case renderer s3 of
                  None \<Rightarrow> s3
                | Some r \<Rightarrow> (case penLayer s3 r of
                               None \<Rightarrow> s3
                             | Some pl \<Rightarrow> emit [PenLayer_clear pl] s3));
          s5 = unregisterProject (td_project td) s4;
          s6 = abort_controller (td_controller td) s5
      in emit [Interp_setProject None] s6)"

definition setProject :: "project_id option \<Rightarrow> state \<Rightarrow> state" where
  "setProject x s =
     (let s1 = (case unregisterPreviousProject s of
                  None \<Rightarrow> s
                | Some td \<Rightarrow>
                    (run_unregisterPreviousProject td s)\<lparr>unregisterPreviousProject := None\<rparr>);
          s2 = s1\<lparr>project := x\<rparr>
      in case x of
           None \<Rightarrow> s2
         | Some p \<Rightarrow>
             (let (controller, s3) = new_AbortController (emit [Interp_setProject (Some p)] s2);
                  s4 = (emit [Project_addEventListener p controller] s3)
                       \<lparr>create_listeners := create_listeners s3 @ [(p, controller)]\<rparr>;
                  s5 = fold (\<lambda>(m, b). handleMonitorCreated controller m)
                         (monitors (project_heap s4 p)) s4;
                  s6 = project_register p s5
              in s6\<lparr>unregisterPreviousProject :=
                      Some \<lparr>td_project = p, td_controller = controller\<rparr>\<rparr>))"

definition destroy :: "state \<Rightarrow> state" where
  "destroy s = setProject None s"

subsection \<open>Attaching a stage, and the input listeners\<close>

definition setupEventListeners :: "stage_id \<Rightarrow> state \<Rightarrow> ctrl_id option \<times> state" where
  "setupEventListeners stg s =
     (case renderer s of
        None \<Rightarrow> (None, s)
      | Some r \<Rightarrow>
          (let (abortController, s1) = new_AbortController s
           in (Some abortController, emit [Stage_addEventListeners stg abortController] s1)))"

definition run_unsetPreviousStage :: "stage_teardown \<Rightarrow> state \<Rightarrow> state" where
  "run_unsetPreviousStage td s =
     (let s1 = s\<lparr>renderer := None\<rparr>;
          s2 = emit [Interp_setRenderer None] s1;
          s3 = s2\<lparr>stage := None\<rparr>;
          s4 = emit [Renderer_destroy (st_renderer td)] s3
      in case st_controller td of
           None \<Rightarrow> s4
         | Some abortController \<Rightarrow> abort_controller abortController s4)"

definition attachStage :: "stage_id option \<Rightarrow> state \<Rightarrow> state" where
  "attachStage x s =
     (let s1 = (case unsetPreviousStage s of
                  None \<Rightarrow> s
                | Some td \<Rightarrow> (run_unsetPreviousStage td s)\<lparr>unsetPreviousStage := None\<rparr>)
      in case x of
           None \<Rightarrow> s1
         | Some stg \<Rightarrow>
             (let r = next_id s1;
                  s2 = (emit [Renderer_new r stg] s1)\<lparr>renderer := Some r, next_id := Suc r\<rparr>;
                  s3 = emit [Interp_setRenderer (Some r), Stage_tabIndex stg] s2;
                  (teardownEventListeners, s4) = setupEventListeners stg s3;
                  s5 = s4\<lparr>stage := Some stg\<rparr>
              in s5\<lparr>unsetPreviousStage :=
                      Some \<lparr>st_renderer = r, st_controller = teardownEventListeners\<rparr>\<rparr>))"

text \<open>
  The five listeners \<^verbatim>\<open>setupEventListeners\<close> adds, each as the function of the state
  it is. \<^verbatim>\<open>keydown\<close> and \<^verbatim>\<open>keyup\<close> get the \<^verbatim>\<open>key\<close> of the event.
\<close>

definition pointermove :: "collab \<Rightarrow> stage_id \<Rightarrow> pointer_event \<Rightarrow> state \<Rightarrow> state" where
  "pointermove cb stg event s =
     s\<lparr>mousePosition :=
          stageCoordsFromPointerEvent stageBounds (getBoundingClientRect cb stg) event\<rparr>"

definition pointerdown :: "collab \<Rightarrow> state \<Rightarrow> state" where
  "pointerdown cb s =
     (let s1 = s\<lparr>mouseDown := True\<rparr>
      in case project s1 of
           None \<Rightarrow> s1
         | Some p \<Rightarrow>
        (case renderer s1 of
           None \<Rightarrow> s1
         | Some r \<Rightarrow>
             (case (case pick cb r (targets (project_heap s1 p))
                           (fst (mousePosition s1)) (snd (mousePosition s1)) of
                      Some t \<Rightarrow> Some t
                    | None \<Rightarrow> proj_stage (project_heap s1 p)) of
                None \<Rightarrow> s1
              | Some clickedTarget \<Rightarrow> emit [Target_click clickedTarget] s1)))"

definition pointerup :: "state \<Rightarrow> state" where
  "pointerup s = s\<lparr>mouseDown := False\<rparr>"

definition keydown :: "collab \<Rightarrow> string \<Rightarrow> state \<Rightarrow> state" where
  "keydown cb event_key s =
     (case domToScratchKey cb event_key of
        None \<Rightarrow> s
      | Some k \<Rightarrow>
          (let s1 = emit [Event_preventDefault] s;
               s2 = s1\<lparr>keysDown := insert k (keysDown s1)\<rparr>
           in emit [Interp_startHats ''keypressed'' k] s2))"

definition keyup :: "collab \<Rightarrow> string \<Rightarrow> state \<Rightarrow> state" where
  "keyup cb event_key s =
     (case domToScratchKey cb event_key of
        None \<Rightarrow> s
      | Some k \<Rightarrow> s\<lparr>keysDown := keysDown s - {k}\<rparr>)"

subsection \<open>What the monitors and the project do on their own\<close>

text \<open>
  Modelled from the spec: \<^verbatim>\<open>monitor.js\<close> and \<^verbatim>\<open>project.js\<close> are not among the
  sources. A monitor's \<open>visible\<close> flag is set from outside the runtime, and a project
  that declares a monitor adds it to its monitor collection and sends the creation
  notification.
\<close>

definition set_visible :: "monitor_id \<Rightarrow> bool \<Rightarrow> state \<Rightarrow> state" where
  "set_visible m b s =
     s\<lparr>monitor_heap := (monitor_heap s)(m := (monitor_heap s m)\<lparr>visible := b\<rparr>)\<rparr>"

definition project_createMonitor :: "project_id \<Rightarrow> monitor_id \<Rightarrow> block_id \<Rightarrow> state \<Rightarrow> state" where
  "project_createMonitor p m b s =
     dispatch_createmonitor p m
       (s\<lparr>project_heap := (project_heap s)
            (p := (project_heap s p)\<lparr>monitors := monitors (project_heap s p) @ [(m, b)]\<rparr>)\<rparr>)"

section \<open>Combining abort signals\<close>

text \<open>
  \<^verbatim>\<open>anyAbortSignal\<close> (\<^verbatim>\<open>util/any-abort-signal.ts\<close>). The signals it is given are
  signals of the host, each an address with its \<^verbatim>\<open>aborted\<close> flag and its \<^verbatim>\<open>abort\<close>
  listeners in the order they were added; \<^verbatim>\<open>null\<close> and \<^verbatim>\<open>undefined\<close> are \<open>None\<close>. The
  signal it returns is named by the controller it belongs to; the log \<open>abort_events\<close>
  holds one entry for each \<^verbatim>\<open>abort\<close> event dispatched on such a signal. A listener is
  the closure \<^verbatim>\<open>onAbort\<close> of one call: its controller and the signals it captured.
  Signals the combinator returned are not themselves given to it here.
\<close>

type_synonym sig_id = nat

datatype listener = OnAbort (ctrl: ctrl_id) (captured: "sig_id option list")

text \<open>The world of signals and controllers.\<close>

record world =
  sig_aborted :: "sig_id \<Rightarrow> bool"
  sig_listeners :: "sig_id \<Rightarrow> listener list"
  ctrl_aborted :: "ctrl_id \<Rightarrow> bool"
  abort_events :: "ctrl_id list"
  next_ctrl :: nat

text \<open>
  \<^verbatim>\<open>controller.abort()\<close> does nothing on a signal that has aborted; else it sets the flag
  and dispatches the event. \<^verbatim>\<open>addEventListener\<close> adds nothing when the same callback is
  listed already.
\<close>

definition AbortController_abort :: "ctrl_id \<Rightarrow> world \<Rightarrow> world" where
  "AbortController_abort c w =
     (if ctrl_aborted w c then w
      else w\<lparr>ctrl_aborted := (ctrl_aborted w)(c := True), abort_events := abort_events w @ [c]\<rparr>)"

definition addEventListener :: "sig_id \<Rightarrow> listener \<Rightarrow> world \<Rightarrow> world" where
  "addEventListener s l w =
     (if l \<in> set (sig_listeners w s) then w
      else w\<lparr>sig_listeners := (sig_listeners w)(s := sig_listeners w s @ [l])\<rparr>)"

definition removeEventListener :: "sig_id \<Rightarrow> listener \<Rightarrow> world \<Rightarrow> world" where
  "removeEventListener s l w =
     w\<lparr>sig_listeners := (sig_listeners w)(s := remove1 l (sig_listeners w s))\<rparr>"

text \<open>\<^verbatim>\<open>onAbort\<close>: abort the controller, then remove the listener from every signal given.\<close>

fun cleanup :: "listener \<Rightarrow> sig_id option list \<Rightarrow> world \<Rightarrow> world" where
  "cleanup l [] w = w"
| "cleanup l (None # rest) w = cleanup l rest w"
| "cleanup l (Some s # rest) w = cleanup l rest (removeEventListener s l w)"

definition onAbort :: "ctrl_id \<Rightarrow> sig_id option list \<Rightarrow> world \<Rightarrow> world" where
  "onAbort controller signals w =
     cleanup (OnAbort controller signals) signals (AbortController_abort controller w)"

text \<open>
  The loop over the signals: at the first one that has aborted, \<^verbatim>\<open>onAbort\<close> runs and the
  loop breaks; the others before it get the listener.
\<close>

fun anyAbortSignal_loop :: "ctrl_id \<Rightarrow> sig_id option list \<Rightarrow> sig_id option list \<Rightarrow> world \<Rightarrow> world" where
  "anyAbortSignal_loop controller signals [] w = w"
| "anyAbortSignal_loop controller signals (None # rest) w = anyAbortSignal_loop controller signals rest w"
| "anyAbortSignal_loop controller signals (Some s # rest) w =
     (if sig_aborted w s then onAbort controller signals w
      else anyAbortSignal_loop controller signals rest
             (addEventListener s (OnAbort controller signals) w))"

definition anyAbortSignal :: "sig_id option list \<Rightarrow> world \<Rightarrow> ctrl_id \<times> world" where
  "anyAbortSignal signals w =
     (let controller = next_ctrl w;
          w1 = w\<lparr>next_ctrl := Suc controller,
                  ctrl_aborted := (ctrl_aborted w)(controller := False)\<rparr>
      in (controller, anyAbortSignal_loop controller signals signals w1))"

text \<open>
  An input signal aborts, by its own controller: if it had not aborted, the flag is set
  and each listener that is still attached when its turn comes is called, in order.
\<close>

fun run_listener :: "listener \<Rightarrow> world \<Rightarrow> world" where
  "run_listener (OnAbort controller signals) w = onAbort controller signals w"

definition deliver_abort :: "sig_id \<Rightarrow> listener \<Rightarrow> world \<Rightarrow> world" where
  "deliver_abort s l w = (if l \<in> set (sig_listeners w s) then run_listener l w else w)"

definition signal_abort :: "sig_id \<Rightarrow> world \<Rightarrow> world" where
  "signal_abort s w =
     (if sig_aborted w s then w
      else (let w1 = w\<lparr>sig_aborted := (sig_aborted w)(s := True)\<rparr>
            in fold (deliver_abort s) (sig_listeners w1 s) w1))"

text \<open>Some signal of the list has aborted.\<close>

fun any_aborted :: "world \<Rightarrow> sig_id option list \<Rightarrow> bool" where
  "any_aborted w [] = False"
| "any_aborted w (None # rest) = any_aborted w rest"
| "any_aborted w (Some s # rest) = (sig_aborted w s \<or> any_aborted w rest)"

text \<open>A world with no listener and no derived signal, over given flags of the inputs.\<close>

definition new_world :: "(sig_id \<Rightarrow> bool) \<Rightarrow> world" where
  "new_world ab = \<lparr>sig_aborted = ab, sig_listeners = (\<lambda>s. []), ctrl_aborted = (\<lambda>c. False),
     abort_events = [], next_ctrl = 0\<rparr>"

text \<open>
  A world the allocator made: a listener list names no callback twice, and the
  controllers named in listeners and in the log were allocated before.
\<close>

definition world_ok :: "world \<Rightarrow> bool" where
  "world_ok w =
     ((\<forall>s. distinct (sig_listeners w s)) \<and>
      (\<forall>s l. l \<in> set (sig_listeners w s) \<longrightarrow> ctrl l < next_ctrl w) \<and>
      (\<forall>c. c \<in> set (abort_events w) \<longrightarrow> c < next_ctrl w))"

text \<open>
  The state of one combination, controller \<open>c\<close> over the signals \<open>sigs\<close>: its listener
  is attached to exactly the signals given while it has not aborted, and to none once
  it has; its signal has aborted exactly when an input has, with one event then. The
  two further predicates hold inside the loop of the combinator and inside the dispatch
  of an input's \<^verbatim>\<open>abort\<close> event.
\<close>

definition attached :: "ctrl_id \<Rightarrow> sig_id option list \<Rightarrow> world \<Rightarrow> bool" where
  "attached c sigs w =
     (c < next_ctrl w \<and>
      (\<forall>s. distinct (sig_listeners w s)) \<and>
      (\<forall>s l. l \<in> set (sig_listeners w s) \<and> ctrl l = c \<longrightarrow>
         l = OnAbort c sigs \<and> Some s \<in> set sigs) \<and>
      count_list (abort_events w) c = (if ctrl_aborted w c then 1 else 0) \<and>
      (\<forall>s. OnAbort c sigs \<in> set (sig_listeners w s) \<longleftrightarrow>
         (\<not> ctrl_aborted w c \<and> Some s \<in> set sigs)))"

definition combined :: "ctrl_id \<Rightarrow> sig_id option list \<Rightarrow> world \<Rightarrow> bool" where
  "combined c sigs w = (attached c sigs w \<and> ctrl_aborted w c = any_aborted w sigs)"

definition firing :: "ctrl_id \<Rightarrow> sig_id option list \<Rightarrow> sig_id \<Rightarrow> listener list \<Rightarrow> world \<Rightarrow> bool" where
  "firing c sigs s rest w =
     (attached c sigs w \<and> sig_aborted w s \<and>
      (ctrl_aborted w c \<longrightarrow> any_aborted w sigs) \<and>
      (\<not> ctrl_aborted w c \<and> any_aborted w sigs \<longrightarrow>
         OnAbort c sigs \<in> set rest \<and> Some s \<in> set sigs))"

text \<open>
  What happens around one call of the combinator: input signals abort, and the
  combinator is called again, on any signals.
\<close>

datatype env_event = Fire sig_id | Combine "sig_id option list"

fun env_step :: "env_event \<Rightarrow> world \<Rightarrow> world" where
  "env_step (Fire s) w = signal_abort s w"
| "env_step (Combine sigs) w = snd (anyAbortSignal sigs w)"

definition loop_inv :: "ctrl_id \<Rightarrow> sig_id option list \<Rightarrow> sig_id option list \<Rightarrow> world \<Rightarrow> bool" where
  "loop_inv c sigs seen w =
     (c < next_ctrl w \<and>
      (\<forall>s. distinct (sig_listeners w s)) \<and>
      (\<forall>s l. l \<in> set (sig_listeners w s) \<and> ctrl l = c \<longrightarrow>
         l = OnAbort c sigs \<and> Some s \<in> set seen) \<and>
      c \<notin> set (abort_events w) \<and>
      \<not> ctrl_aborted w c \<and>
      \<not> any_aborted w seen \<and>
      (\<forall>s. Some s \<in> set seen \<longrightarrow> OnAbort c sigs \<in> set (sig_listeners w s)))"

section \<open>Reading the trace\<close>

text \<open>The calls made between two states, the second reached from the first.\<close>

definition effects_since :: "state \<Rightarrow> state \<Rightarrow> effect list" where
  "effects_since s s' = drop (length (trace s)) (trace s')"

text \<open>
  The launches of one monitor pass: one for each visible monitor, in the order of the
  project's collection, on the monitor's target or else on the stage target.
\<close>

definition launches ::
  "(monitor_id \<Rightarrow> monitor) \<Rightarrow> (monitor_id \<times> block_id) list \<Rightarrow> target_id \<Rightarrow> effect list" where
  "launches h ms stg =
     map (\<lambda>(m, b). Interp_launch b (case target (h m) of Some t \<Rightarrow> t | None \<Rightarrow> stg))
       (filter (\<lambda>(m, b). visible (h m)) ms)"

text \<open>The three phases of a tick: stepping the threads, the monitor pass, drawing.\<close>

fun phase :: "effect \<Rightarrow> nat" where
  "phase Interp_stepThreads = 0"
| "phase (Interp_launch b t) = 1"
| "phase (Renderer_draw r ts) = 2"
| "phase e = 3"

text \<open>The calls of one tick, read off the state it starts in.\<close>

definition tick_effects :: "state \<Rightarrow> effect list" where
  "tick_effects s =
     (case project s of
        None \<Rightarrow> []
      | Some p \<Rightarrow> Interp_stepThreads #
          (case proj_stage (project_heap s p) of
             None \<Rightarrow> []
           | Some stg \<Rightarrow> launches (monitor_heap s) (monitors (project_heap s p)) stg @
               (case renderer s of
                  None \<Rightarrow> []
                | Some r \<Rightarrow> [Renderer_draw r (targets (project_heap s p))])))"

fun is_SetInterval :: "effect \<Rightarrow> bool" where
  "is_SetInterval (SetInterval t) = True"
| "is_SetInterval e = False"

fun is_createMonitorView :: "effect \<Rightarrow> bool" where
  "is_createMonitorView (Stage_createMonitorView stg v) = True"
| "is_createMonitorView e = False"

fun is_View_remove :: "effect \<Rightarrow> bool" where
  "is_View_remove (View_remove v) = True"
| "is_View_remove e = False"

text \<open>
  The monitor's \<open>visible\<close> flag becomes \<open>b\<close> and the update notification that follows
  is delivered to the listeners of the monitor. The monitor has a live update listener
  when one of the listeners added to it was added under a signal that has not aborted.
\<close>

definition notify :: "collab \<Rightarrow> monitor_id \<Rightarrow> bool \<Rightarrow> state \<Rightarrow> state" where
  "notify cb m b s = dispatch_updatemonitor cb m (set_visible m b s)"

definition live_listener :: "monitor_id \<Rightarrow> state \<Rightarrow> bool" where
  "live_listener m s = list_ex (\<lambda>l. fst l = m \<and> snd l \<notin> aborted s) (update_listeners s)"

text \<open>
  The calls that remove the views of the monitors of a collection, in its order: for
  each monitor that has a view, the view's removal and the abort of its controller.
\<close>

fun view_removals ::
  "(monitor_id \<rightharpoonup> view_entry) \<Rightarrow> (monitor_id \<times> block_id) list \<Rightarrow> effect list" where
  "view_removals mv [] = []"
| "view_removals mv ((m, b) # rest) =
     (case mv m of
        None \<Rightarrow> view_removals mv rest
      | Some e \<Rightarrow> View_remove (view e) # Controller_abort (abort e) #
                  view_removals (mv(m := None)) rest)"

text \<open>
  The teardown of a bound project, as the spec lists it: the loop is stopped, the views
  of the project's monitors are removed, the pen layer (if there is one) is cleared,
  the project is unregistered, its event scope is aborted and the interpreter is left
  without a project.
\<close>

definition teardown_effects :: "state \<Rightarrow> project_teardown \<Rightarrow> effect list" where
  "teardown_effects s td =
     (case steppingInterval s of None \<Rightarrow> [] | Some t \<Rightarrow> [ClearInterval t]) @
     view_removals (monitorViews s) (monitors (project_heap s (td_project td))) @
     (case renderer s of
        None \<Rightarrow> []
      | Some r \<Rightarrow> (case penLayer s r of None \<Rightarrow> [] | Some pl \<Rightarrow> [PenLayer_clear pl])) @
     [Project_unregister (td_project td), Controller_abort (td_controller td),
      Interp_setProject None]"

text \<open>
  The calls that bind a project: the interpreter gets it, the runtime subscribes to its
  creation notifications, adds (with a stage attached) an update listener to each of
  its monitors, and registers it.
\<close>

definition binding_effects :: "state \<Rightarrow> project_id option \<Rightarrow> effect list" where
  "binding_effects s x =
     (case x of
        None \<Rightarrow> []
      | Some p \<Rightarrow>
          [Interp_setProject (Some p), Project_addEventListener p (next_id s)] @
          (case stage s of
             None \<Rightarrow> []
           | Some stg \<Rightarrow> map (\<lambda>(m, b). Monitor_addEventListener m (next_id s))
                          (monitors (project_heap s p))) @
          [Project_register p])"

text \<open>
  The project whose teardown closure the runtime holds, and the monitors of that
  project. In the states \<^verbatim>\<open>setProject\<close> is meant for, the registered projects are the
  one whose teardown is held, and every view is the view of one of its monitors.
\<close>

definition pending :: "state \<Rightarrow> project_id list" where
  "pending s = (case unregisterPreviousProject s of None \<Rightarrow> [] | Some td \<Rightarrow> [td_project td])"

definition pending_monitors :: "state \<Rightarrow> monitor_id set" where
  "pending_monitors s =
     (case unregisterPreviousProject s of
        None \<Rightarrow> {}
      | Some td \<Rightarrow> fst ` set (monitors (project_heap s (td_project td))))"

definition teardown_inv :: "state \<Rightarrow> bool" where
  "teardown_inv s = (registered s = pending s \<and> dom (monitorViews s) \<subseteq> pending_monitors s)"

text \<open>
  The registered projects, followed along a trace; and that along a trace there are
  never two of them.
\<close>

fun reg_step :: "effect \<Rightarrow> project_id list \<Rightarrow> project_id list" where
  "reg_step (Project_register p) r = r @ [p]"
| "reg_step (Project_unregister p) r = remove1 p r"
| "reg_step e r = r"

fun never_two :: "effect list \<Rightarrow> project_id list \<Rightarrow> bool" where
  "never_two [] r = (length r \<le> 1)"
| "never_two (e # es) r = (length r \<le> 1 \<and> never_two es (reg_step e r))"

text \<open>
  A step that leaves the binding of the project alone: the teardown closure held, the
  listeners, the registered projects and the projects themselves are as before, and no
  controller allocated before the step has its abort undone.
\<close>

definition frame :: "state \<Rightarrow> state \<Rightarrow> bool" where
  "frame s s' =
     (unregisterPreviousProject s' = unregisterPreviousProject s \<and>
      update_listeners s' = update_listeners s \<and>
      create_listeners s' = create_listeners s \<and>
      registered s' = registered s \<and>
      project_heap s' = project_heap s \<and>
      next_id s \<le> next_id s' \<and>
      (\<forall>c. c \<in> aborted s \<and> c < next_id s \<longrightarrow> c \<in> aborted s'))"

text \<open>
  The listeners of a state agree with the binding: every controller named was allocated
  before, and a listener whose signal has not aborted was added under the controller of
  the project that is bound, on that project (a creation listener) or on one of its
  monitors (an update listener).
\<close>

definition well_bound :: "state \<Rightarrow> bool" where
  "well_bound s =
     (teardown_inv s \<and>
      (\<forall>td. unregisterPreviousProject s = Some td \<longrightarrow> td_controller td < next_id s) \<and>
      (\<forall>m c. (m, c) \<in> set (update_listeners s) \<longrightarrow>
         c < next_id s \<and>
         (c \<notin> aborted s \<longrightarrow>
            (\<exists>td. unregisterPreviousProject s = Some td \<and> td_controller td = c \<and>
               m \<in> fst ` set (monitors (project_heap s (td_project td)))))) \<and>
      (\<forall>p c. (p, c) \<in> set (create_listeners s) \<longrightarrow>
         c < next_id s \<and>
         (c \<notin> aborted s \<longrightarrow>
            unregisterPreviousProject s = Some \<lparr>td_project = p, td_controller = c\<rparr>)))"

text \<open>
  The states a runtime can be in: a new runtime, and from there any call of its methods,
  any firing of its timer and of its listeners, and the monitors and the project acting
  on their own.
\<close>

inductive reachable :: "collab \<Rightarrow> state \<Rightarrow> bool" for cb :: collab where
  r_new: "reachable cb (new_Runtime ms ps pl)"
| r_setProject: "reachable cb s \<Longrightarrow> reachable cb (setProject x s)"
| r_attachStage: "reachable cb s \<Longrightarrow> reachable cb (attachStage y s)"
| r_start: "reachable cb s \<Longrightarrow> reachable cb (state_of (start s))"
| r_stop: "reachable cb s \<Longrightarrow> reachable cb (stop s)"
| r_tick: "reachable cb s \<Longrightarrow> reachable cb (state_of (step s))"
| r_visible: "reachable cb s \<Longrightarrow> reachable cb (set_visible m b s)"
| r_updated: "reachable cb s \<Longrightarrow> reachable cb (dispatch_updatemonitor cb m s)"
| r_created: "reachable cb s \<Longrightarrow> reachable cb (project_createMonitor p m blk s)"
| r_slider: "reachable cb s \<Longrightarrow> reachable cb (state_of (sliderchange m v s))"
| r_pointermove: "reachable cb s \<Longrightarrow> reachable cb (pointermove cb stg ev s)"
| r_pointerdown: "reachable cb s \<Longrightarrow> reachable cb (pointerdown cb s)"
| r_pointerup: "reachable cb s \<Longrightarrow> reachable cb (pointerup s)"
| r_keydown: "reachable cb s \<Longrightarrow> reachable cb (keydown cb k s)"
| r_keyup: "reachable cb s \<Longrightarrow> reachable cb (keyup cb k s)"

section \<open>Example states\<close>

text \<open>
  One project with one visible, global monitor, a stage target and one sprite; a
  keyboard on which only \<^verbatim>\<open>a\<close> is a key of the project; a stage element shown at its
  natural size.
\<close>

definition ex_monitor :: monitor where
  "ex_monitor = \<lparr>visible = True, position = None, target = None,
     monitorSliderHandler = None, colorCategory = None\<rparr>"

definition ex_project :: project_obj where
  "ex_project = \<lparr>monitors = [(0, 7)], targets = [3, 4], proj_stage = Some 3\<rparr>"

definition ex_runtime :: state where
  "ex_runtime = new_Runtime (\<lambda>m. ex_monitor) (\<lambda>p. ex_project) (\<lambda>r. None)"

definition ex_collab :: collab where
  "ex_collab =
     \<lparr>getBounds = (\<lambda>v. None), layout = (\<lambda>v rs. (5, 5)),
      domToScratchKey = (\<lambda>k. if k = ''a'' then Some ''a'' else None),
      pick = (\<lambda>r ts x y. None),
      getBoundingClientRect = (\<lambda>stg.
        \<lparr>dr_left = JNum 0, dr_top = JNum 0, dr_width = JNum 480, dr_height = JNum 360\<rparr>)\<rparr>"

text \<open>The same runtime over a project that has no stage target, the project bound.\<close>

definition ex_nostage :: state where
  "ex_nostage =
     setProject (Some 0)
       (new_Runtime (\<lambda>m. ex_monitor) (\<lambda>p. ex_project\<lparr>proj_stage := None\<rparr>) (\<lambda>r. None))"

text \<open>
  A stage is attached and the project bound; then the loop is started and the monitor's
  first update handled (its view exists); then the stage is detached and the monitor
  hidden.
\<close>

definition ex_staged :: state where
  "ex_staged = attachStage (Some 0) ex_runtime"

definition ex_bound :: state where
  "ex_bound = setProject (Some 0) ex_staged"

definition ex_shown :: state where
  "ex_shown = dispatch_updatemonitor ex_collab 0 (state_of (start ex_bound))"

definition ex_detached :: state where
  "ex_detached = set_visible 0 False (attachStage None ex_shown)"

text \<open>
  The update notification of the hidden monitor is delivered with the stage detached;
  then the monitor is made visible again and the next notification delivered.
\<close>

definition ex_hidden :: state where
  "ex_hidden = dispatch_updatemonitor ex_collab 0 ex_detached"

definition ex_reshown :: state where
  "ex_reshown = dispatch_updatemonitor ex_collab 0 (set_visible 0 True ex_hidden)"

text \<open>
  After the notification delivered with the stage detached, another stage is attached:
  the hidden monitor still has the view it got on the first stage.
\<close>

definition ex_restaged :: state where
  "ex_restaged = attachStage (Some 1) ex_hidden"

text \<open>
  The project is bound before any stage is attached; then a stage is attached and the
  project declares a second monitor.
\<close>

definition ex_unstaged :: state where
  "ex_unstaged = setProject (Some 0) ex_runtime"

definition ex_late :: state where
  "ex_late = project_createMonitor 0 1 8 (attachStage (Some 0) ex_unstaged)"

text \<open>A world in which the one signal 9 has aborted.\<close>

definition ex_world :: world where
  "ex_world = new_world (\<lambda>s. s = 9)"

section \<open>Properties\<close>

lemmas ex_defs = ex_monitor_def ex_project_def ex_runtime_def ex_collab_def new_Runtime_def

lemmas ex_state_defs = ex_nostage_def ex_staged_def ex_bound_def ex_shown_def ex_detached_def
  ex_hidden_def ex_reshown_def ex_restaged_def ex_unstaged_def ex_late_def

lemmas op_defs = set_visible_def emit_def abort_controller_def new_AbortController_def
  stop_def stepMonitors_def step_def start_def removeMonitorView_def fetchOrCreateView_def
  handleMonitorUpdated_def handleMonitorCreated_def deliver_updatemonitor_def
  dispatch_updatemonitor_def deliver_createmonitor_def dispatch_createmonitor_def project_createMonitor_def project_register_def
  unregisterProject_def run_unregisterPreviousProject_def setProject_def
  setupEventListeners_def run_unsetPreviousStage_def attachStage_def keydown_def keyup_def
  effects_since_def


subsection \<open>The trace only grows\<close>

lemma emit_fields [simp]:
  "project (emit es s) = project s"
  "renderer (emit es s) = renderer s"
  "stage (emit es s) = stage s"
  "monitorViews (emit es s) = monitorViews s"
  "steppingInterval (emit es s) = steppingInterval s"
  "unregisterPreviousProject (emit es s) = unregisterPreviousProject s"
  "unsetPreviousStage (emit es s) = unsetPreviousStage s"
  "keysDown (emit es s) = keysDown s"
  "monitor_heap (emit es s) = monitor_heap s"
  "project_heap (emit es s) = project_heap s"
  "penLayer (emit es s) = penLayer s"
  "update_listeners (emit es s) = update_listeners s"
  "create_listeners (emit es s) = create_listeners s"
  "aborted (emit es s) = aborted s"
  "registered (emit es s) = registered s"
  "next_id (emit es s) = next_id s"
  "trace (emit es s) = trace s @ es"
  by (simp_all add: emit_def)

lemma emit_emit [simp]: "emit es (emit ds s) = emit (ds @ es) s"
  by (simp add: emit_def)

lemma emit_Nil [simp]: "emit [] s = s"
  by (simp add: emit_def)

subsection \<open>Pointer coordinates\<close>

lemmas coords_defs = stageCoordsFromPointerEvent_def stageBounds_def fromBounds_def
  width_def height_def js_sub_def js_inf_def within_bounds_def

text \<open>
  The scenario of the spec: a stage shown at 480 by 360 with its corner at the origin
  of the client area, the pointer on that corner. Every number of it is an integer, so
  the arithmetic of the source is exact here too.
\<close>

lemma stageCoords_scenario:
  "stageCoordsFromPointerEvent stageBounds
     \<lparr>dr_left = JNum 0, dr_top = JNum 0, dr_width = JNum 480, dr_height = JNum 360\<rparr>
     \<lparr>clientX = JNum 0, clientY = JNum 0\<rparr> = (JNum (- 240), JNum 180)"
  by (simp add: coords_defs)

text \<open>
  \<^bold>\<open>C3.\<close> The claim is that the computed coordinate lies within the stage bounds for
  every pointer event and every surface rectangle. For a stage element that is not
  shown, \<^verbatim>\<open>getBoundingClientRect\<close> is all zeros; a \<^verbatim>\<open>pointermove\<close> on the window at
  client \<open>(0, 0)\<close> then computes \<open>0 * (480 / 0)\<close>, which is NaN, and neither \<^verbatim>\<open>Math.min\<close>
  nor \<^verbatim>\<open>Math.max\<close> clamps a NaN: the result is \<open>(NaN, NaN)\<close>, outside the bounds.
\<close>

theorem stageCoords_zero_rect_NaN:
  "stageCoordsFromPointerEvent stageBounds
     \<lparr>dr_left = JNum 0, dr_top = JNum 0, dr_width = JNum 0, dr_height = JNum 0\<rparr>
     \<lparr>clientX = JNum 0, clientY = JNum 0\<rparr> = (JNaN, JNaN) \<and>
   \<not> within_bounds stageBounds
       (stageCoordsFromPointerEvent stageBounds
          \<lparr>dr_left = JNum 0, dr_top = JNum 0, dr_width = JNum 0, dr_height = JNum 0\<rparr>
          \<lparr>clientX = JNum 0, clientY = JNum 0\<rparr>)"
  by (simp add: coords_defs)

subsection \<open>One tick\<close>

lemma stepMonitors_loop_emit:
  "stepMonitors_loop ms stg s = emit (launches (monitor_heap s) ms stg) s"
  by (induction ms stg s rule: stepMonitors_loop.induct) (simp_all add: launches_def)

lemma step_emit: "state_of (step s) = emit (tick_effects s) s"
  by (simp add: step_def stepMonitors_def tick_effects_def stepMonitors_loop_emit
      split: option.splits)

lemma phase_launches: "e \<in> set (launches h ms stg) \<Longrightarrow> phase e = 1"
  by (auto simp: launches_def)

lemma sorted_const: "\<forall>x\<in>set xs. f x = (c::nat) \<Longrightarrow> sorted (map f xs)"
  by (induction xs) auto

lemma sorted_launches: "sorted (map phase (launches h ms stg))"
  by (rule sorted_const [where c = 1]) (simp add: phase_launches)

lemma sorted_tick_effects: "sorted (map phase (tick_effects s))"
  by (auto simp: tick_effects_def sorted_append sorted_launches dest: phase_launches
      split: option.splits)

text \<open>
  \<^bold>\<open>C2.\<close> Within one tick, stepping the threads comes before the monitor pass, which
  comes before drawing. The calls of \<^verbatim>\<open>step\<close> are, in this order: none when no project
  is bound (the step throws at once); else \<^verbatim>\<open>stepThreads\<close>, then nothing more when the
  project has no stage target (the monitor pass throws), else one launch for each
  visible monitor and then, when a renderer is attached, one \<^verbatim>\<open>draw\<close>. So the phases
  of the calls of a tick never decrease.
\<close>

theorem tick_phases_in_order:
  "trace (state_of (step s)) = trace s @
     (case project s of
        None \<Rightarrow> []
      | Some p \<Rightarrow> Interp_stepThreads #
          (case proj_stage (project_heap s p) of
             None \<Rightarrow> []
           | Some stg \<Rightarrow> launches (monitor_heap s) (monitors (project_heap s p)) stg @
               (case renderer s of
                  None \<Rightarrow> []
                | Some r \<Rightarrow> [Renderer_draw r (targets (project_heap s p))]))) \<and>
   sorted (map phase (effects_since s (state_of (step s))))"
  using sorted_tick_effects [of s]
  by (simp add: step_emit effects_since_def) (simp add: tick_effects_def)

text \<open>
  \<^bold>\<open>C7.\<close> A tick with no project bound throws \<^verbatim>\<open>Cannot step without a project\<close>
  before doing anything; stepping the monitors of a project that has no stage target
  throws \<^verbatim>\<open>Project has no stage\<close>, whatever monitors the project has, and the tick
  that made the pass throws with it, the threads having been stepped.
\<close>

theorem precondition_violations_throw:
  "(project s = None \<longrightarrow> step s = Threw CannotStepWithoutProject s) \<and>
   (\<forall>p. project s = Some p \<and> proj_stage (project_heap s p) = None \<longrightarrow>
      stepMonitors s = Threw ProjectHasNoStage s \<and>
      step s = Threw ProjectHasNoStage (emit [Interp_stepThreads] s))"
  by (simp add: step_def stepMonitors_def)

theorem precondition_violations_throw_witness:
  "project ex_runtime = None \<and>
   step ex_runtime = Threw CannotStepWithoutProject ex_runtime \<and>
   project ex_nostage = Some 0 \<and>
   proj_stage (project_heap ex_nostage 0) = None \<and>
   stepMonitors ex_nostage = Threw ProjectHasNoStage ex_nostage \<and>
   step ex_nostage = Threw ProjectHasNoStage (emit [Interp_stepThreads] ex_nostage)"
proof -
  have a: "project ex_runtime = None"
    by (simp add: ex_defs)
  have b: "project ex_nostage = Some 0 \<and> proj_stage (project_heap ex_nostage 0) = None"
    by (simp add: ex_state_defs ex_defs op_defs Let_def)
  show ?thesis
    using a b precondition_violations_throw [of ex_runtime]
      precondition_violations_throw [of ex_nostage]
    by blast
qed

subsection \<open>Starting and stopping\<close>

lemma start_running: "steppingInterval s = Some t \<Longrightarrow> start s = Ok s"
  by (simp add: start_def)

lemma start_stopped:
  "steppingInterval s = None \<Longrightarrow>
   start s = step ((emit [SetInterval (next_id s)] s)
                   \<lparr>steppingInterval := Some (next_id s), next_id := Suc (next_id s)\<rparr>)"
  by (simp add: start_def Let_def)

lemma steppingInterval_step: "steppingInterval (state_of (step s)) = steppingInterval s"
  by (simp add: step_emit)

lemma start_sets: "steppingInterval (state_of (start s)) \<noteq> None"
  by (cases "steppingInterval s") (simp_all add: start_stopped start_running steppingInterval_step)

lemma start_start: "start (state_of (start s)) = Ok (state_of (start s))"
  using start_sets [of s] by (auto simp: start_running)

lemma count_launches: "count_list (launches h ms stg) Interp_stepThreads = 0"
  by (induction ms) (auto simp: launches_def)

lemma filter_launches: "filter is_SetInterval (launches h ms stg) = []"
  by (induction ms) (auto simp: launches_def)

lemma tick_effects_timer [simp]:
  "tick_effects ((emit es s)\<lparr>steppingInterval := a, next_id := b\<rparr>) = tick_effects s"
  by (simp add: tick_effects_def split: option.splits)

lemma start_effects:
  "steppingInterval s = None \<Longrightarrow>
   effects_since s (state_of (start s)) = SetInterval (next_id s) # tick_effects s"
  by (simp add: start_stopped step_emit effects_since_def)

lemma start_twice_counts:
  assumes "steppingInterval s = None" and "project s = Some p"
  shows "length (filter is_SetInterval
           (effects_since s (state_of (start (state_of (start s)))))) = 1 \<and>
         count_list (effects_since s (state_of (start (state_of (start s)))))
           Interp_stepThreads = 1"
  using assms
  by (simp add: start_start start_effects tick_effects_def filter_launches count_launches
      split: option.splits)

lemma stop_stopped: "steppingInterval s = None \<Longrightarrow> stop s = s"
  by (simp add: stop_def)

text \<open>
  \<^bold>\<open>C6.\<close> \<^verbatim>\<open>start\<close> on a running loop returns with the state as it was. \<^verbatim>\<open>start\<close> on a
  stopped loop sets the timer and makes one step at once. Hence a second \<^verbatim>\<open>start\<close>
  right after a first changes nothing, and with a project bound the two calls
  together set one timer and step the threads once. \<^verbatim>\<open>stop\<close> on a stopped loop
  returns with the state as it was.
\<close>

theorem start_stop_noop:
  "(steppingInterval s \<noteq> None \<longrightarrow> start s = Ok s) \<and>
   (steppingInterval s = None \<longrightarrow>
      start s = step ((emit [SetInterval (next_id s)] s)
                      \<lparr>steppingInterval := Some (next_id s), next_id := Suc (next_id s)\<rparr>)) \<and>
   steppingInterval (state_of (start s)) \<noteq> None \<and>
   start (state_of (start s)) = Ok (state_of (start s)) \<and>
   (steppingInterval s = None \<and> project s \<noteq> None \<longrightarrow>
      length (filter is_SetInterval
        (effects_since s (state_of (start (state_of (start s)))))) = 1 \<and>
      count_list (effects_since s (state_of (start (state_of (start s)))))
        Interp_stepThreads = 1) \<and>
   (steppingInterval s = None \<longrightarrow> stop s = s)"
  using start_twice_counts [of s]
  by (auto simp: start_running start_stopped start_sets start_start stop_stopped)


theorem start_stop_noop_witness:
  "steppingInterval ex_shown \<noteq> None \<and> start ex_shown = Ok ex_shown \<and>
   steppingInterval ex_bound = None \<and> project ex_bound \<noteq> None \<and>
   start ex_bound = step ((emit [SetInterval (next_id ex_bound)] ex_bound)
      \<lparr>steppingInterval := Some (next_id ex_bound), next_id := Suc (next_id ex_bound)\<rparr>) \<and>
   length (filter is_SetInterval
     (effects_since ex_bound (state_of (start (state_of (start ex_bound)))))) = 1 \<and>
   count_list (effects_since ex_bound (state_of (start (state_of (start ex_bound)))))
     Interp_stepThreads = 1 \<and>
   stop ex_bound = ex_bound"
proof -
  have a: "steppingInterval ex_shown \<noteq> None"
    by (simp add: ex_state_defs ex_defs op_defs Let_def)
  have b: "steppingInterval ex_bound = None \<and> project ex_bound \<noteq> None"
    by (simp add: ex_state_defs ex_defs op_defs Let_def)
  show ?thesis
    using a b start_stop_noop [of ex_shown] start_stop_noop [of ex_bound]
    by blast
qed

subsection \<open>Keys\<close>

text \<open>
  \<^bold>\<open>C8.\<close> As stated, pressing and releasing a recognized key leaves the set of held
  keys as it was before the press. The set has no count of presses: \<^verbatim>\<open>keydown\<close>
  adds the key, \<^verbatim>\<open>keyup\<close> deletes it. A \<^verbatim>\<open>keydown\<close> for a key that is held already
  (the repeat of a key kept down) followed by its \<^verbatim>\<open>keyup\<close> leaves the key out of the
  set, where it was in before.
\<close>

theorem key_roundtrip_counterexample:
  "domToScratchKey ex_collab ''a'' = Some ''a'' \<and>
   keysDown (keydown ex_collab ''a'' ex_runtime) = {''a''} \<and>
   keysDown (keyup ex_collab ''a''
     (keydown ex_collab ''a'' (keydown ex_collab ''a'' ex_runtime))) = {}"
  by (simp add: keydown_def keyup_def ex_defs Let_def)

text \<open>
  \<^bold>\<open>C8\<close>, amended. A \<^verbatim>\<open>keydown\<close> for a recognized key followed by the matching
  \<^verbatim>\<open>keyup\<close> leaves the set of held keys as it was before the press with that key
  removed: as it was, when the key was not held before the press. A \<^verbatim>\<open>keydown\<close> or
  \<^verbatim>\<open>keyup\<close> for a key that \<^verbatim>\<open>domToScratchKey\<close> maps to null leaves the whole state as
  it was: the trace too, so the default is not prevented and no hat is started.
\<close>

theorem key_roundtrip:
  "(domToScratchKey cb e = Some k \<longrightarrow>
      keysDown (keyup cb e (keydown cb e s)) = keysDown s - {k}) \<and>
   (domToScratchKey cb e = Some k \<and> k \<notin> keysDown s \<longrightarrow>
      keysDown (keyup cb e (keydown cb e s)) = keysDown s) \<and>
   (domToScratchKey cb e = None \<longrightarrow> keydown cb e s = s \<and> keyup cb e s = s)"
  by (auto simp: keydown_def keyup_def Let_def)

theorem key_roundtrip_witness:
  "domToScratchKey ex_collab ''a'' = Some ''a'' \<and> ''a'' \<notin> keysDown ex_bound \<and>
   keysDown (keyup ex_collab ''a'' (keydown ex_collab ''a'' ex_bound)) = keysDown ex_bound \<and>
   domToScratchKey ex_collab ''b'' = None \<and>
   keydown ex_collab ''b'' ex_bound = ex_bound \<and> keyup ex_collab ''b'' ex_bound = ex_bound"
proof -
  have a: "domToScratchKey ex_collab ''a'' = Some ''a'' \<and> ''a'' \<notin> keysDown ex_bound"
    by (simp add: ex_state_defs ex_defs op_defs Let_def)
  have b: "domToScratchKey ex_collab ''b'' = None"
    by (simp add: ex_defs)
  show ?thesis
    using a b key_roundtrip [of ex_collab "''a''" "''a''" ex_bound]
      key_roundtrip [of ex_collab "''b''" "''a''" ex_bound]
    by blast
qed

subsection \<open>Updates of a monitor\<close>



lemma set_visible_fields [simp]:
  "project (set_visible m b s) = project s"
  "stage (set_visible m b s) = stage s"
  "monitorViews (set_visible m b s) = monitorViews s"
  "trace (set_visible m b s) = trace s"
  "next_id (set_visible m b s) = next_id s"
  "aborted (set_visible m b s) = aborted s"
  "visible (monitor_heap (set_visible m b s) m) = b"
  by (simp_all add: set_visible_def)

lemma handle_show:
  assumes "project s = Some p" and "stage s = Some stg" and "visible (monitor_heap s m)"
    and "monitorViews s m = None"
  shows "monitorViews (handleMonitorUpdated cb m s) =
           (monitorViews s)(m \<mapsto> \<lparr>view = next_id s, abort = Suc (next_id s)\<rparr>)"
    and "filter is_createMonitorView (effects_since s (handleMonitorUpdated cb m s)) =
           [Stage_createMonitorView stg (next_id s)]"
    and "filter is_View_remove (effects_since s (handleMonitorUpdated cb m s)) = []"
    and "Suc (next_id s) \<notin> aborted (handleMonitorUpdated cb m s)"
    and "next_id (handleMonitorUpdated cb m s) = Suc (Suc (next_id s))"
  using assms
  by (simp_all add: handleMonitorUpdated_def fetchOrCreateView_def new_AbortController_def
      effects_since_def Let_def split: option.splits)

lemma handle_keep:
  assumes "project s = Some p" and "stage s = Some stg" and "visible (monitor_heap s m)"
    and "monitorViews s m = Some e"
  shows "monitorViews (handleMonitorUpdated cb m s) = monitorViews s"
    and "filter is_createMonitorView (effects_since s (handleMonitorUpdated cb m s)) = []"
    and "filter is_View_remove (effects_since s (handleMonitorUpdated cb m s)) = []"
    and "aborted (handleMonitorUpdated cb m s) = aborted s"
  using assms
  by (simp_all add: handleMonitorUpdated_def fetchOrCreateView_def new_AbortController_def
      effects_since_def Let_def split: option.splits)

lemma handle_hide:
  assumes "project s = Some p" and "stage s = Some stg" and "\<not> visible (monitor_heap s m)"
    and "monitorViews s m = Some e"
  shows "monitorViews (handleMonitorUpdated cb m s) = (monitorViews s)(m := None)"
    and "effects_since s (handleMonitorUpdated cb m s) = [View_remove (view e), Controller_abort (abort e)]"
    and "abort e \<in> aborted (handleMonitorUpdated cb m s)"
    and "next_id (handleMonitorUpdated cb m s) = next_id s"
  using assms
  by (simp_all add: handleMonitorUpdated_def removeMonitorView_def abort_controller_def
      effects_since_def Let_def split: option.splits)

lemma handle_hidden:
  assumes "project s = Some p" and "stage s = Some stg" and "\<not> visible (monitor_heap s m)"
    and "monitorViews s m = None"
  shows "handleMonitorUpdated cb m s = s"
  using assms
  by (simp_all add: handleMonitorUpdated_def removeMonitorView_def split: option.splits)

lemma handle_bound:
  "project (handleMonitorUpdated cb m s) = project s"
  "stage (handleMonitorUpdated cb m s) = stage s"
  "visible (monitor_heap (handleMonitorUpdated cb m s) m') = visible (monitor_heap s m')"
  by (simp_all add: handleMonitorUpdated_def removeMonitorView_def abort_controller_def
      fetchOrCreateView_def new_AbortController_def Let_def split: option.splits)

lemma view_iff_visible:
  assumes "project s = Some p" and "stage s = Some stg"
  shows "(monitorViews (handleMonitorUpdated cb m s) m \<noteq> None) = visible (monitor_heap s m)"
proof (cases "visible (monitor_heap s m)")
  case True
  then show ?thesis
    using assms by (cases "monitorViews s m") (simp_all add: handle_show handle_keep)
next
  case False
  then show ?thesis
    using assms by (cases "monitorViews s m") (simp_all add: handle_hide handle_hidden)
qed


subsection \<open>Binding and unbinding a project\<close>

lemma removeMonitorView_fields [simp]:
  "project (removeMonitorView m s) = project s"
  "renderer (removeMonitorView m s) = renderer s"
  "stage (removeMonitorView m s) = stage s"
  "steppingInterval (removeMonitorView m s) = steppingInterval s"
  "unregisterPreviousProject (removeMonitorView m s) = unregisterPreviousProject s"
  "monitor_heap (removeMonitorView m s) = monitor_heap s"
  "project_heap (removeMonitorView m s) = project_heap s"
  "penLayer (removeMonitorView m s) = penLayer s"
  "update_listeners (removeMonitorView m s) = update_listeners s"
  "create_listeners (removeMonitorView m s) = create_listeners s"
  "registered (removeMonitorView m s) = registered s"
  "next_id (removeMonitorView m s) = next_id s"
  by (simp_all add: removeMonitorView_def abort_controller_def split: option.splits)

lemma fold_remove_fields [simp]:
  "project (fold (\<lambda>(m, b). removeMonitorView m) ms s) = project s"
  "renderer (fold (\<lambda>(m, b). removeMonitorView m) ms s) = renderer s"
  "stage (fold (\<lambda>(m, b). removeMonitorView m) ms s) = stage s"
  "steppingInterval (fold (\<lambda>(m, b). removeMonitorView m) ms s) = steppingInterval s"
  "unregisterPreviousProject (fold (\<lambda>(m, b). removeMonitorView m) ms s) = unregisterPreviousProject s"
  "monitor_heap (fold (\<lambda>(m, b). removeMonitorView m) ms s) = monitor_heap s"
  "project_heap (fold (\<lambda>(m, b). removeMonitorView m) ms s) = project_heap s"
  "penLayer (fold (\<lambda>(m, b). removeMonitorView m) ms s) = penLayer s"
  "update_listeners (fold (\<lambda>(m, b). removeMonitorView m) ms s) = update_listeners s"
  "create_listeners (fold (\<lambda>(m, b). removeMonitorView m) ms s) = create_listeners s"
  "registered (fold (\<lambda>(m, b). removeMonitorView m) ms s) = registered s"
  "next_id (fold (\<lambda>(m, b). removeMonitorView m) ms s) = next_id s"
  by (induction ms arbitrary: s) auto

lemma removeMonitorView_views:
  "monitorViews (removeMonitorView m s) = (monitorViews s)(m := None)"
  by (auto simp: removeMonitorView_def abort_controller_def split: option.splits)

lemma removeMonitorView_trace:
  "trace (removeMonitorView m s) = trace s @
     (case monitorViews s m of None \<Rightarrow> [] | Some e \<Rightarrow> [View_remove (view e), Controller_abort (abort e)])"
  by (auto simp: removeMonitorView_def abort_controller_def split: option.splits)

lemma fold_remove_views:
  "monitorViews (fold (\<lambda>(m, b). removeMonitorView m) ms s) =
     (\<lambda>k. if k \<in> fst ` set ms then None else monitorViews s k)"
  by (induction ms arbitrary: s) (auto simp: removeMonitorView_views)

lemma fold_remove_trace:
  "trace (fold (\<lambda>(m, b). removeMonitorView m) ms s) =
     trace s @ view_removals (monitorViews s) ms"
  by (induction ms arbitrary: s)
     (auto simp: removeMonitorView_views removeMonitorView_trace fun_upd_idem split: option.splits)

lemma handleMonitorCreated_unstaged: "stage s = None \<Longrightarrow> handleMonitorCreated c m s = s"
  by (simp add: handleMonitorCreated_def)

lemma handleMonitorCreated_staged:
  "stage s = Some stg \<Longrightarrow>
   handleMonitorCreated c m s =
     (emit [Monitor_addEventListener m c] s)
     \<lparr>update_listeners := update_listeners s @ (if c \<in> aborted s then [] else [(m, c)])\<rparr>"
  by (simp add: handleMonitorCreated_def)

lemma fold_created_unstaged:
  "stage s = None \<Longrightarrow> fold (\<lambda>(m, b). handleMonitorCreated c m) ms s = s"
  by (induction ms arbitrary: s) (auto simp: handleMonitorCreated_unstaged)

lemma fold_created_staged:
  "stage s = Some stg \<Longrightarrow>
   fold (\<lambda>(m, b). handleMonitorCreated c m) ms s =
     (emit (map (\<lambda>(m, b). Monitor_addEventListener m c) ms) s)
     \<lparr>update_listeners := update_listeners s @
        (if c \<in> aborted s then [] else map (\<lambda>(m, b). (m, c)) ms)\<rparr>"
proof (induction ms arbitrary: s)
  case Nil
  then show ?case by simp
next
  case (Cons a ms)
  obtain m b where a: "a = (m, b)" by (cases a)
  let ?s = "handleMonitorCreated c m s"
  have st: "stage ?s = Some stg" and ab: "aborted ?s = aborted s"
    using Cons.prems by (simp_all add: handleMonitorCreated_staged)
  have "fold (\<lambda>(m, b). handleMonitorCreated c m) (a # ms) s =
        fold (\<lambda>(m, b). handleMonitorCreated c m) ms ?s"
    by (simp add: a)
  also have "\<dots> = (emit (map (\<lambda>(m, b). Monitor_addEventListener m c) ms) ?s)
     \<lparr>update_listeners := update_listeners ?s @
        (if c \<in> aborted ?s then [] else map (\<lambda>(m, b). (m, c)) ms)\<rparr>"
    by (rule Cons.IH [OF st])
  also have "\<dots> = (emit (map (\<lambda>(m, b). Monitor_addEventListener m c) (a # ms)) s)
     \<lparr>update_listeners := update_listeners s @
        (if c \<in> aborted s then [] else map (\<lambda>(m, b). (m, c)) (a # ms))\<rparr>"
    using Cons.prems by (simp add: handleMonitorCreated_staged a emit_def)
  finally show ?case .
qed


lemma stop_fields [simp]:
  "project (stop s) = project s"
  "renderer (stop s) = renderer s"
  "stage (stop s) = stage s"
  "monitorViews (stop s) = monitorViews s"
  "steppingInterval (stop s) = None"
  "unregisterPreviousProject (stop s) = unregisterPreviousProject s"
  "monitor_heap (stop s) = monitor_heap s"
  "project_heap (stop s) = project_heap s"
  "penLayer (stop s) = penLayer s"
  "update_listeners (stop s) = update_listeners s"
  "create_listeners (stop s) = create_listeners s"
  "registered (stop s) = registered s"
  "next_id (stop s) = next_id s"
  "trace (stop s) = trace s @ (case steppingInterval s of None \<Rightarrow> [] | Some t \<Rightarrow> [ClearInterval t])"
  by (simp_all add: stop_def split: option.splits)

lemma run_unregister_fields [simp]:
  "project (run_unregisterPreviousProject td s) = None"
  "renderer (run_unregisterPreviousProject td s) = renderer s"
  "stage (run_unregisterPreviousProject td s) = stage s"
  "steppingInterval (run_unregisterPreviousProject td s) = None"
  "unregisterPreviousProject (run_unregisterPreviousProject td s) = unregisterPreviousProject s"
  "monitor_heap (run_unregisterPreviousProject td s) = monitor_heap s"
  "project_heap (run_unregisterPreviousProject td s) = project_heap s"
  "penLayer (run_unregisterPreviousProject td s) = penLayer s"
  "update_listeners (run_unregisterPreviousProject td s) = update_listeners s"
  "create_listeners (run_unregisterPreviousProject td s) = create_listeners s"
  "registered (run_unregisterPreviousProject td s) = remove1 (td_project td) (registered s)"
  "next_id (run_unregisterPreviousProject td s) = next_id s"
  by (simp_all add: run_unregisterPreviousProject_def unregisterProject_def
      abort_controller_def Let_def split: option.splits)

lemma run_unregister_views:
  "monitorViews (run_unregisterPreviousProject td s) =
     (\<lambda>k. if k \<in> fst ` set (monitors (project_heap s (td_project td))) then None
          else monitorViews s k)"
  by (simp add: run_unregisterPreviousProject_def unregisterProject_def
      abort_controller_def Let_def fold_remove_views split: option.splits cong: if_cong)

lemma run_unregister_trace:
  "trace (run_unregisterPreviousProject td s) = trace s @ teardown_effects s td"
  by (simp add: run_unregisterPreviousProject_def unregisterProject_def teardown_effects_def
      abort_controller_def Let_def fold_remove_trace split: option.splits)


lemmas setProject_simps = setProject_def new_AbortController_def project_register_def Let_def
  fold_created_staged fold_created_unstaged run_unregister_trace run_unregister_views

lemma setProject_trace:
  "trace (setProject x s) = trace s @
     (case unregisterPreviousProject s of None \<Rightarrow> [] | Some td \<Rightarrow> teardown_effects s td) @
     binding_effects s x"
  by (cases "unregisterPreviousProject s"; cases x; cases "stage s")
     (simp_all add: setProject_simps binding_effects_def)

lemma setProject_views:
  "monitorViews (setProject x s) =
     (case unregisterPreviousProject s of
        None \<Rightarrow> monitorViews s
      | Some td \<Rightarrow> (\<lambda>k. if k \<in> fst ` set (monitors (project_heap s (td_project td)))
                         then None else monitorViews s k))"
  by (cases "unregisterPreviousProject s"; cases x; cases "stage s")
     (simp_all add: setProject_simps)

lemma setProject_fields:
  "project (setProject x s) = x"
  "stage (setProject x s) = stage s"
  "renderer (setProject x s) = renderer s"
  "project_heap (setProject x s) = project_heap s"
  "monitor_heap (setProject x s) = monitor_heap s"
  "unregisterPreviousProject (setProject x s) =
     map_option (\<lambda>p. \<lparr>td_project = p, td_controller = next_id s\<rparr>) x"
  "steppingInterval (setProject x s) =
     (case unregisterPreviousProject s of None \<Rightarrow> steppingInterval s | Some td \<Rightarrow> None)"
  "registered (setProject x s) =
     (case unregisterPreviousProject s of
        None \<Rightarrow> registered s
      | Some td \<Rightarrow> remove1 (td_project td) (registered s)) @
     (case x of None \<Rightarrow> [] | Some p \<Rightarrow> [p])"
  "next_id (setProject x s) = (case x of None \<Rightarrow> next_id s | Some p \<Rightarrow> Suc (next_id s))"
  by (cases "unregisterPreviousProject s"; cases x; cases "stage s";
      simp add: setProject_simps)+

lemma setProject_listeners:
  "update_listeners (setProject (Some p) s) = update_listeners s @
     (case stage s of
        None \<Rightarrow> []
      | Some stg \<Rightarrow> map (\<lambda>(m, b). (m, next_id s)) (monitors (project_heap s p)))"
  "create_listeners (setProject (Some p) s) = create_listeners s @ [(p, next_id s)]"
  "next_id s \<notin> aborted (setProject (Some p) s)"
  by (cases "unregisterPreviousProject s"; cases "stage s";
      simp add: setProject_simps)+


lemma teardown_inv_new: "teardown_inv (new_Runtime ms ps pl)"
  by (simp add: teardown_inv_def pending_def pending_monitors_def new_Runtime_def)

lemma setProject_views_empty:
  assumes "teardown_inv s"
  shows "monitorViews (setProject x s) = Map.empty"
proof (cases "unregisterPreviousProject s")
  case None
  then show ?thesis
    using assms by (simp add: setProject_views teardown_inv_def pending_monitors_def)
next
  case (Some td)
  have "monitorViews s k = None" if "k \<notin> fst ` set (monitors (project_heap s (td_project td)))" for k
    using assms that Some by (auto simp: teardown_inv_def pending_monitors_def)
  then show ?thesis
    using Some by (auto simp: setProject_views)
qed

lemma setProject_registered:
  assumes "teardown_inv s"
  shows "registered (setProject x s) = (case x of None \<Rightarrow> [] | Some p \<Rightarrow> [p])"
  using assms
  by (cases "unregisterPreviousProject s")
     (simp_all add: setProject_fields teardown_inv_def pending_def)

lemma teardown_inv_setProject:
  assumes "teardown_inv s"
  shows "teardown_inv (setProject x s)"
  using setProject_views_empty [OF assms, of x] setProject_registered [OF assms, of x]
  by (cases x) (simp_all add: teardown_inv_def pending_def setProject_fields)

lemma never_two_append:
  "never_two (es @ fs) r = (never_two es r \<and> never_two fs (fold reg_step es r))"
proof (induction es arbitrary: r)
  case Nil
  show ?case by (cases fs) auto
next
  case (Cons e es)
  then show ?case by simp
qed

lemma reg_view_removals:
  "fold reg_step (view_removals mv ms) r = r"
  "never_two (view_removals mv ms) r = (length r \<le> 1)"
  by (induction mv ms arbitrary: r rule: view_removals.induct) (auto split: option.splits)

lemma reg_add_listeners:
  "fold reg_step (map (\<lambda>(m, b). Monitor_addEventListener m c) ms) r = r"
  "never_two (map (\<lambda>(m, b). Monitor_addEventListener m c) ms) r = (length r \<le> 1)"
  by (induction ms arbitrary: r) auto

lemma reg_teardown_effects:
  "fold reg_step (teardown_effects s td) r = remove1 (td_project td) r"
  "length r \<le> 1 \<Longrightarrow> never_two (teardown_effects s td) r"
  by (auto simp: teardown_effects_def never_two_append reg_view_removals length_remove1
      split: option.splits)


lemma reg_binding_effects:
  "fold reg_step (binding_effects s x) r = r @ (case x of None \<Rightarrow> [] | Some p \<Rightarrow> [p])"
  "r = [] \<Longrightarrow> never_two (binding_effects s x) r"
  by (auto simp: binding_effects_def never_two_append reg_add_listeners split: option.splits)

lemma setProject_effects:
  "effects_since s (setProject x s) =
     (case unregisterPreviousProject s of None \<Rightarrow> [] | Some td \<Rightarrow> teardown_effects s td) @
     binding_effects s x"
  by (simp add: effects_since_def setProject_trace)

lemma setProject_never_two:
  assumes "teardown_inv s"
  shows "never_two (effects_since s (setProject x s)) (registered s) \<and>
         fold reg_step (effects_since s (setProject x s)) (registered s) =
           registered (setProject x s)"
proof (cases "unregisterPreviousProject s")
  case None
  then have "registered s = []"
    using assms by (simp add: teardown_inv_def pending_def)
  then show ?thesis
    using None by (simp add: setProject_effects reg_binding_effects setProject_fields)
next
  case (Some td)
  then have "registered s = [td_project td]"
    using assms by (simp add: teardown_inv_def pending_def)
  then show ?thesis
    using Some
    by (simp add: setProject_effects never_two_append reg_teardown_effects
        reg_binding_effects setProject_fields)
qed

lemma setProject_seq:
  assumes "teardown_inv s"
  shows "teardown_inv (fold setProject xs s) \<and>
         (\<exists>es. trace (fold setProject xs s) = trace s @ es \<and>
               never_two es (registered s) \<and>
               fold reg_step es (registered s) = registered (fold setProject xs s))"
  using assms
proof (induction xs arbitrary: s)
  case Nil
  then show ?case
    by (simp add: teardown_inv_def pending_def split: option.splits)
next
  case (Cons x xs)
  let ?s = "setProject x s"
  have inv: "teardown_inv ?s"
    by (rule teardown_inv_setProject [OF Cons.prems])
  obtain es where es: "trace (fold setProject xs ?s) = trace ?s @ es"
      "never_two es (registered ?s)"
      "fold reg_step es (registered ?s) = registered (fold setProject xs ?s)"
    using Cons.IH [OF inv] by blast
  have tr: "trace ?s = trace s @ effects_since s ?s"
    by (simp add: setProject_effects setProject_trace)
  note one = setProject_never_two [OF Cons.prems, of x]
  have "trace (fold setProject (x # xs) s) = trace s @ (effects_since s ?s @ es)"
    using es(1) tr by simp
  moreover have "never_two (effects_since s ?s @ es) (registered s)"
    using one es(2) by (simp add: never_two_append)
  moreover have "fold reg_step (effects_since s ?s @ es) (registered s) =
      registered (fold setProject (x # xs) s)"
    using one es(3) by simp
  ultimately show ?case
    using Cons.IH [OF inv] by auto
qed

text \<open>
  \<^bold>\<open>C1.\<close> Take a state in which the registered projects are the one whose teardown
  closure the runtime holds (none, if it holds none) and every view is the view of a
  monitor of that project: a new runtime is such a state, and so is every state a
  runtime can reach (lemma \<open>reachable_teardown_inv\<close> below). After any sequence of
  \<^verbatim>\<open>setProject\<close> calls the state is such a state again, and along the whole trace
  there are never two registered projects. The calls of one more \<^verbatim>\<open>setProject\<close> are
  the whole teardown of the project bound before (the timer cleared, the views of its
  monitors removed and their controllers aborted, the pen layer cleared if there is
  one, the project unregistered, its controller aborted, the interpreter left without
  a project) and only then the calls that bind the new project and add the listeners
  of its monitors. After the call no view is left, the loop is stopped if a project
  was bound, and the new project is the one registered.
\<close>

theorem setProject_teardown_first:
  "teardown_inv s \<Longrightarrow>
   (let sn = fold setProject xs s; s' = setProject x sn
    in teardown_inv sn \<and> teardown_inv s' \<and>
       never_two (effects_since s s') (registered s) \<and>
       effects_since sn s' =
         (case unregisterPreviousProject sn of
            None \<Rightarrow> []
          | Some td \<Rightarrow> teardown_effects sn td) @
         binding_effects sn x \<and>
       monitorViews s' = Map.empty \<and>
       steppingInterval s' =
         (case unregisterPreviousProject sn of None \<Rightarrow> steppingInterval sn | Some td \<Rightarrow> None) \<and>
       registered s' = (case x of None \<Rightarrow> [] | Some p \<Rightarrow> [p]) \<and>
       project s' = x)"
proof -
  assume a: "teardown_inv s"
  define sn where "sn = fold setProject xs s"
  define s' where "s' = setProject x sn"
  have s': "s' = fold setProject (xs @ [x]) s"
    by (simp add: s'_def sn_def)
  have inv: "teardown_inv sn"
    using setProject_seq [OF a, of xs] by (simp add: sn_def)
  obtain es where es: "trace s' = trace s @ es" "never_two es (registered s)"
    using setProject_seq [OF a, of "xs @ [x]"] unfolding s' by blast
  have "never_two (effects_since s s') (registered s)"
    using es by (simp add: effects_since_def)
  then have "teardown_inv sn \<and> teardown_inv s' \<and>
       never_two (effects_since s s') (registered s) \<and>
       effects_since sn s' =
         (case unregisterPreviousProject sn of
            None \<Rightarrow> []
          | Some td \<Rightarrow> teardown_effects sn td) @
         binding_effects sn x \<and>
       monitorViews s' = Map.empty \<and>
       steppingInterval s' =
         (case unregisterPreviousProject sn of None \<Rightarrow> steppingInterval sn | Some td \<Rightarrow> None) \<and>
       registered s' = (case x of None \<Rightarrow> [] | Some p \<Rightarrow> [p]) \<and>
       project s' = x"
    using inv teardown_inv_setProject [OF inv, of x] setProject_views_empty [OF inv, of x]
      setProject_registered [OF inv, of x]
    by (simp add: s'_def setProject_effects setProject_fields)
  then show ?thesis
    unfolding Let_def sn_def s'_def .
qed


theorem setProject_teardown_first_witness:
  "teardown_inv ex_shown \<and>
   (let sn = fold setProject [None, Some 0] ex_shown; s' = setProject (Some 0) sn
    in teardown_inv sn \<and> teardown_inv s' \<and>
       never_two (effects_since ex_shown s') (registered ex_shown) \<and>
       effects_since sn s' =
         (case unregisterPreviousProject sn of
            None \<Rightarrow> []
          | Some td \<Rightarrow> teardown_effects sn td) @
         binding_effects sn (Some 0) \<and>
       monitorViews s' = Map.empty \<and>
       steppingInterval s' =
         (case unregisterPreviousProject sn of None \<Rightarrow> steppingInterval sn | Some td \<Rightarrow> None) \<and>
       registered s' = (case Some 0 of None \<Rightarrow> [] | Some p \<Rightarrow> [p]) \<and>
       project s' = Some 0) \<and>
   effects_since ex_shown (setProject (Some 0) ex_shown) =
     [ClearInterval 3, View_remove 4, Controller_abort 5, Project_unregister 0,
      Controller_abort 2, Interp_setProject None, Interp_setProject (Some 0),
      Project_addEventListener 0 6, Monitor_addEventListener 0 6, Project_register 0]"
proof -
  have a: "teardown_inv ex_shown"
    by (simp add: teardown_inv_def pending_def pending_monitors_def ex_state_defs ex_defs
        op_defs Let_def)
  have b: "effects_since ex_shown (setProject (Some 0) ex_shown) =
     [ClearInterval 3, View_remove 4, Controller_abort 5, Project_unregister 0,
      Controller_abort 2, Interp_setProject None, Interp_setProject (Some 0),
      Project_addEventListener 0 6, Monitor_addEventListener 0 6, Project_register 0]"
    by (simp add: ex_state_defs ex_defs op_defs Let_def eval_nat_numeral)
  show ?thesis
    using a b setProject_teardown_first [OF a, of "[None, Some 0]" "Some 0"]
    by blast
qed


subsection \<open>The monitors a project has when it is bound\<close>

lemma handleMonitorCreated_keeps [simp]:
  "stage (handleMonitorCreated c m s) = stage s"
  "aborted (handleMonitorCreated c m s) = aborted s"
  by (simp_all add: handleMonitorCreated_def split: option.splits)

lemma handleMonitorCreated_listeners:
  "stage s = Some stg \<Longrightarrow> c \<notin> aborted s \<Longrightarrow>
   update_listeners (handleMonitorCreated c m s) = update_listeners s @ [(m, c)]"
  by (simp add: handleMonitorCreated_def)

lemma fold_deliver_createmonitor:
  "stage t = Some stg \<Longrightarrow>
   stage (fold (deliver_createmonitor p m) L t) = Some stg \<and>
   aborted (fold (deliver_createmonitor p m) L t) = aborted t \<and>
   update_listeners (fold (deliver_createmonitor p m) L t) =
     update_listeners t @
     map (\<lambda>l. (m, snd l)) (filter (\<lambda>l. fst l = p \<and> snd l \<notin> aborted t) L)"
proof (induction L arbitrary: t)
  case Nil
  then show ?case by simp
next
  case (Cons a L)
  have st: "stage (deliver_createmonitor p m a t) = Some stg"
    and ab: "aborted (deliver_createmonitor p m a t) = aborted t"
    using Cons.prems by (simp_all add: deliver_createmonitor_def)
  show ?case
    using Cons.IH [OF st] Cons.prems
    by (simp add: ab) (simp add: deliver_createmonitor_def handleMonitorCreated_listeners)
qed

lemma dispatch_created_adds:
  "stage s = Some stg \<Longrightarrow> (p, c) \<in> set (create_listeners s) \<Longrightarrow> c \<notin> aborted s \<Longrightarrow>
   (m, c) \<in> set (update_listeners (dispatch_createmonitor p m s))"
  using fold_deliver_createmonitor [of s stg p m "create_listeners s"]
  by (force simp: dispatch_createmonitor_def)

lemma handle_visible_aborted:
  "visible (monitor_heap s m) \<Longrightarrow> aborted (handleMonitorUpdated cb m s) \<subseteq> aborted s"
  by (auto simp: handleMonitorUpdated_def fetchOrCreateView_def new_AbortController_def Let_def
      split: option.splits)

lemma fold_deliver_updatemonitor:
  assumes "project t = Some p" and "stage t = Some stg" and "visible (monitor_heap t m)"
    and "c \<notin> aborted t" and "monitorViews t m \<noteq> None \<or> (m, c) \<in> set L"
  shows "monitorViews (fold (deliver_updatemonitor cb m) L t) m \<noteq> None"
  using assms
proof (induction L arbitrary: t)
  case Nil
  then show ?case by simp
next
  case (Cons a L)
  let ?t = "deliver_updatemonitor cb m a t"
  have h: "monitorViews (handleMonitorUpdated cb m t) m \<noteq> None"
    using view_iff_visible [OF Cons.prems(1,2), of cb m] Cons.prems(3) by simp
  have t: "project ?t = Some p" "stage ?t = Some stg" "visible (monitor_heap ?t m)"
    "c \<notin> aborted ?t"
    using Cons.prems handle_visible_aborted [of t m cb]
    by (auto simp: deliver_updatemonitor_def handle_bound)
  have v: "monitorViews ?t m \<noteq> None \<or> (m, c) \<in> set L"
    using Cons.prems(4,5) h by (auto simp: deliver_updatemonitor_def)
  from Cons.IH [OF t v] show ?case by simp
qed


text \<open>
  \<^bold>\<open>C9.\<close> As stated, \<^verbatim>\<open>setProject\<close> registers an update listener for every monitor
  already in the project, so that its updates are handled as those of a monitor created
  later are. \<^verbatim>\<open>handleMonitorCreated\<close> returns at once when no stage is attached. A
  project bound before the stage is attached gets no update listener for the monitor it
  has; a monitor it declares once the stage is attached gets one. The update of the
  first then creates no view, the update of the second creates one.
\<close>

theorem setProject_replays_created_counterexample:
  "monitors (project_heap ex_runtime 0) = [(0, 7)] \<and>
   update_listeners ex_unstaged = [] \<and>
   update_listeners ex_late = [(1, 0)] \<and>
   monitorViews (dispatch_updatemonitor ex_collab 0 ex_late) 0 = None \<and>
   monitorViews (dispatch_updatemonitor ex_collab 1 ex_late) 1 = Some \<lparr>view = 3, abort = 4\<rparr>"
  by (simp add: ex_state_defs ex_defs op_defs Let_def eval_nat_numeral)

text \<open>
  \<^bold>\<open>C9\<close>, amended. \<^verbatim>\<open>setProject\<close> with a project subscribes to the project's
  creation notifications under a new controller, and calls the creation handler for
  every monitor the project has. With a stage attached the handler adds an update
  listener under that controller's signal, for each of them in order, the same
  listener a monitor created later gets from the subscription; an update of a visible
  monitor of the project is then handled and gives it a view. With no stage attached
  the handler adds nothing.
\<close>

theorem setProject_replays_created:
  "update_listeners (setProject (Some p) s) = update_listeners s @
     (case stage s of
        None \<Rightarrow> []
      | Some stg \<Rightarrow> map (\<lambda>(m, b). (m, next_id s)) (monitors (project_heap s p))) \<and>
   create_listeners (setProject (Some p) s) = create_listeners s @ [(p, next_id s)] \<and>
   next_id s \<notin> aborted (setProject (Some p) s) \<and>
   (stage s \<noteq> None \<longrightarrow>
      (m', next_id s) \<in> set (update_listeners
         (dispatch_createmonitor p m' (setProject (Some p) s)))) \<and>
   (stage s \<noteq> None \<and> m \<in> fst ` set (monitors (project_heap s p)) \<and> visible (monitor_heap s m) \<longrightarrow>
      monitorViews (dispatch_updatemonitor cb m (setProject (Some p) s)) m \<noteq> None)"
proof (intro conjI impI)
  let ?s = "setProject (Some p) s"
  show "update_listeners ?s = update_listeners s @
     (case stage s of
        None \<Rightarrow> []
      | Some stg \<Rightarrow> map (\<lambda>(m, b). (m, next_id s)) (monitors (project_heap s p)))"
    by (rule setProject_listeners)
  show "create_listeners ?s = create_listeners s @ [(p, next_id s)]"
    by (rule setProject_listeners)
  show "next_id s \<notin> aborted ?s"
    by (rule setProject_listeners)
  {
    assume "stage s \<noteq> None"
    then obtain stg where "stage ?s = Some stg"
      by (auto simp: setProject_fields)
    then show "(m', next_id s) \<in> set (update_listeners (dispatch_createmonitor p m' ?s))"
      by (rule dispatch_created_adds) (simp_all add: setProject_listeners)
  }
  {
    assume a: "stage s \<noteq> None \<and> m \<in> fst ` set (monitors (project_heap s p)) \<and>
      visible (monitor_heap s m)"
    then obtain stg where stg: "stage s = Some stg"
      by auto
    have "(m, next_id s) \<in> set (update_listeners ?s)"
      using a stg by (auto simp: setProject_listeners)
    then show "monitorViews (dispatch_updatemonitor cb m ?s) m \<noteq> None"
      unfolding dispatch_updatemonitor_def
      using a stg
      by (intro fold_deliver_updatemonitor [where p = p and stg = stg and c = "next_id s"])
         (simp_all add: setProject_fields setProject_listeners)
  }
qed

theorem setProject_replays_created_witness:
  "stage ex_staged \<noteq> None \<and> 0 \<in> fst ` set (monitors (project_heap ex_staged 0)) \<and>
   visible (monitor_heap ex_staged 0) \<and>
   (1, next_id ex_staged) \<in> set (update_listeners
      (dispatch_createmonitor 0 1 (setProject (Some 0) ex_staged))) \<and>
   monitorViews (dispatch_updatemonitor ex_collab 0 (setProject (Some 0) ex_staged)) 0 \<noteq> None"
proof -
  have a: "stage ex_staged \<noteq> None \<and> 0 \<in> fst ` set (monitors (project_heap ex_staged 0)) \<and>
      visible (monitor_heap ex_staged 0)"
    by (simp add: ex_state_defs ex_defs op_defs Let_def)
  show ?thesis
    using a setProject_replays_created [of 0 ex_staged 1 0 ex_collab]
    by blast
qed


subsection \<open>The states a runtime can reach\<close>

lemma frame_refl [simp]: "frame s s"
  by (simp add: frame_def)

lemma frame_trans: "frame s s' \<Longrightarrow> frame s' s'' \<Longrightarrow> frame s s''"
  by (auto simp: frame_def)

lemma frame_emit [simp]: "frame s (emit es s)"
  by (simp add: frame_def)

lemma well_bound_frame:
  assumes "well_bound s" and "frame s s'" and "dom (monitorViews s') \<subseteq> pending_monitors s"
  shows "well_bound s'"
proof -
  have eq: "unregisterPreviousProject s' = unregisterPreviousProject s"
    "update_listeners s' = update_listeners s" "create_listeners s' = create_listeners s"
    "registered s' = registered s" "project_heap s' = project_heap s"
    and le: "next_id s \<le> next_id s'"
    and ab: "\<And>c. c \<in> aborted s \<Longrightarrow> c < next_id s \<Longrightarrow> c \<in> aborted s'"
    using assms(2) by (auto simp: frame_def)
  have pm: "pending_monitors s' = pending_monitors s" "pending s' = pending s"
    by (simp_all add: pending_monitors_def pending_def eq split: option.splits)
  have 1: "teardown_inv s'"
    using assms(1,3) by (simp add: well_bound_def teardown_inv_def pm eq)
  have 2: "\<forall>td. unregisterPreviousProject s' = Some td \<longrightarrow> td_controller td < next_id s'"
    using assms(1) le by (fastforce simp: well_bound_def eq)
  have 3: "c < next_id s' \<and>
         (c \<notin> aborted s' \<longrightarrow>
            (\<exists>td. unregisterPreviousProject s' = Some td \<and> td_controller td = c \<and>
               m \<in> fst ` set (monitors (project_heap s' (td_project td)))))"
    if "(m, c) \<in> set (update_listeners s')" for m c
  proof -
    have a: "c < next_id s \<and>
         (c \<notin> aborted s \<longrightarrow>
            (\<exists>td. unregisterPreviousProject s = Some td \<and> td_controller td = c \<and>
               m \<in> fst ` set (monitors (project_heap s (td_project td)))))"
      using assms(1) that unfolding well_bound_def eq by blast
    then show ?thesis
      using le ab [of c] by (auto simp: eq)
  qed
  have 4: "c < next_id s' \<and>
         (c \<notin> aborted s' \<longrightarrow>
            unregisterPreviousProject s' = Some \<lparr>td_project = p, td_controller = c\<rparr>)"
    if "(p, c) \<in> set (create_listeners s')" for p c
  proof -
    have a: "c < next_id s \<and>
         (c \<notin> aborted s \<longrightarrow>
            unregisterPreviousProject s = Some \<lparr>td_project = p, td_controller = c\<rparr>)"
      using assms(1) that unfolding well_bound_def eq by blast
    then show ?thesis
      using le ab [of c] by (auto simp: eq)
  qed
  show ?thesis
    unfolding well_bound_def using 1 2 3 4 by blast
qed

lemma well_bound_frame_views:
  "well_bound s \<Longrightarrow> frame s s' \<Longrightarrow> monitorViews s' = monitorViews s \<Longrightarrow> well_bound s'"
  by (rule well_bound_frame) (auto simp: well_bound_def teardown_inv_def)

lemma frame_stop: "frame s (stop s)" "monitorViews (stop s) = monitorViews s"
  by (simp_all add: frame_def stop_def split: option.splits)

lemma frame_step: "frame s (state_of (step s))" "monitorViews (state_of (step s)) = monitorViews s"
  by (simp_all add: step_emit)

lemma frame_start: "frame s (state_of (start s))" "monitorViews (state_of (start s)) = monitorViews s"
  by (cases "steppingInterval s"; simp add: start_stopped start_running step_emit frame_def)+

lemma frame_set_visible: "frame s (set_visible m b s)"
  "monitorViews (set_visible m b s) = monitorViews s"
  by (simp_all add: frame_def set_visible_def)

lemma frame_sliderchange: "frame s (state_of (sliderchange m v s))"
  "monitorViews (state_of (sliderchange m v s)) = monitorViews s"
  by (simp_all add: sliderchange_def split: option.splits)

lemma frame_pointer:
  "frame s (pointermove cb stg ev s)" "monitorViews (pointermove cb stg ev s) = monitorViews s"
  "frame s (pointerdown cb s)" "monitorViews (pointerdown cb s) = monitorViews s"
  "frame s (pointerup s)" "monitorViews (pointerup s) = monitorViews s"
  by (simp_all add: frame_def pointermove_def pointerdown_def pointerup_def Let_def
      split: option.splits)

lemma frame_keys:
  "frame s (keydown cb k s)" "monitorViews (keydown cb k s) = monitorViews s"
  "frame s (keyup cb k s)" "monitorViews (keyup cb k s) = monitorViews s"
  by (simp_all add: frame_def keydown_def keyup_def Let_def split: option.splits)

lemma frame_attachStage: "frame s (attachStage y s)"
  "monitorViews (attachStage y s) = monitorViews s"
  by (cases "unsetPreviousStage s"; cases y; cases "renderer s";
      simp add: frame_def attachStage_def run_unsetPreviousStage_def setupEventListeners_def
        new_AbortController_def abort_controller_def Let_def split: option.splits)+


lemma frame_handleMonitorUpdated: "frame s (handleMonitorUpdated cb m s)"
  by (auto simp: frame_def handleMonitorUpdated_def removeMonitorView_def abort_controller_def
      fetchOrCreateView_def new_AbortController_def Let_def split: option.splits)

lemma dom_handleMonitorUpdated:
  "dom (monitorViews (handleMonitorUpdated cb m s)) \<subseteq> insert m (dom (monitorViews s))"
  by (auto simp: handleMonitorUpdated_def removeMonitorView_def abort_controller_def
      fetchOrCreateView_def new_AbortController_def Let_def split: option.splits if_splits)

lemma well_bound_deliver_updatemonitor:
  assumes "well_bound s" and "l \<in> set (update_listeners s)"
  shows "well_bound (deliver_updatemonitor cb m l s) \<and>
         update_listeners (deliver_updatemonitor cb m l s) = update_listeners s"
proof (cases "fst l = m \<and> snd l \<notin> aborted s")
  case False
  then show ?thesis
    using assms(1) by (auto simp: deliver_updatemonitor_def)
next
  case True
  have "(m, snd l) \<in> set (update_listeners s)"
    using assms(2) True by (cases l) auto
  then have "\<exists>td. unregisterPreviousProject s = Some td \<and> td_controller td = snd l \<and>
      m \<in> fst ` set (monitors (project_heap s (td_project td)))"
    using assms(1) True unfolding well_bound_def by blast
  then obtain td where "unregisterPreviousProject s = Some td"
    and "m \<in> fst ` set (monitors (project_heap s (td_project td)))"
    by blast
  then have m: "m \<in> pending_monitors s"
    by (simp add: pending_monitors_def)
  have "dom (monitorViews s) \<subseteq> pending_monitors s"
    using assms(1) by (simp add: well_bound_def teardown_inv_def)
  then have "dom (monitorViews (handleMonitorUpdated cb m s)) \<subseteq> pending_monitors s"
    using dom_handleMonitorUpdated [of cb m s] m by blast
  then have "well_bound (handleMonitorUpdated cb m s)"
    by (rule well_bound_frame [OF assms(1) frame_handleMonitorUpdated])
  moreover have "update_listeners (handleMonitorUpdated cb m s) = update_listeners s"
    using frame_handleMonitorUpdated [of s cb m] by (simp add: frame_def)
  ultimately show ?thesis
    using True by (simp add: deliver_updatemonitor_def)
qed

lemma well_bound_fold_updatemonitor:
  "well_bound s \<Longrightarrow> set ls \<subseteq> set (update_listeners s) \<Longrightarrow>
   well_bound (fold (deliver_updatemonitor cb m) ls s)"
proof (induction ls arbitrary: s)
  case Nil
  then show ?case by simp
next
  case (Cons l ls)
  have l: "l \<in> set (update_listeners s)"
    using Cons.prems(2) by simp
  note step = well_bound_deliver_updatemonitor [OF Cons.prems(1) l, of cb m]
  have "set ls \<subseteq> set (update_listeners (deliver_updatemonitor cb m l s))"
    using step Cons.prems(2) by simp
  then show ?case
    using Cons.IH [of "deliver_updatemonitor cb m l s"] step by simp
qed

lemma well_bound_dispatch_updatemonitor:
  "well_bound s \<Longrightarrow> well_bound (dispatch_updatemonitor cb m s)"
  by (simp add: dispatch_updatemonitor_def well_bound_fold_updatemonitor)

lemma handleMonitorCreated_same [simp]:
  "unregisterPreviousProject (handleMonitorCreated c m s) = unregisterPreviousProject s"
  "create_listeners (handleMonitorCreated c m s) = create_listeners s"
  "registered (handleMonitorCreated c m s) = registered s"
  "project_heap (handleMonitorCreated c m s) = project_heap s"
  "monitorViews (handleMonitorCreated c m s) = monitorViews s"
  "next_id (handleMonitorCreated c m s) = next_id s"
  by (simp_all add: handleMonitorCreated_def split: option.splits)

lemma set_update_listeners_created:
  "set (update_listeners (handleMonitorCreated c m s)) \<subseteq> insert (m, c) (set (update_listeners s))"
  by (auto simp: handleMonitorCreated_def split: option.splits if_splits)

lemma well_bound_handleMonitorCreated:
  assumes "well_bound s" and "(p, c) \<in> set (create_listeners s)" and "c \<notin> aborted s"
    and "m \<in> fst ` set (monitors (project_heap s p))"
  shows "well_bound (handleMonitorCreated c m s)"
proof -
  let ?s = "handleMonitorCreated c m s"
  have td: "c < next_id s" "unregisterPreviousProject s = Some \<lparr>td_project = p, td_controller = c\<rparr>"
    using assms(1-3) unfolding well_bound_def by blast+
  have pm: "pending_monitors ?s = pending_monitors s" "pending ?s = pending s"
    by (simp_all add: pending_monitors_def pending_def split: option.splits)
  have 1: "teardown_inv ?s"
    using assms(1) by (simp add: well_bound_def teardown_inv_def pm)
  have 2: "\<forall>td. unregisterPreviousProject ?s = Some td \<longrightarrow> td_controller td < next_id ?s"
    using assms(1) by (simp add: well_bound_def)
  have 3: "c' < next_id ?s \<and>
         (c' \<notin> aborted ?s \<longrightarrow>
            (\<exists>td. unregisterPreviousProject ?s = Some td \<and> td_controller td = c' \<and>
               m' \<in> fst ` set (monitors (project_heap ?s (td_project td)))))"
    if "(m', c') \<in> set (update_listeners ?s)" for m' c'
  proof (cases "(m', c') \<in> set (update_listeners s)")
    case True
    then have "c' < next_id s \<and>
         (c' \<notin> aborted s \<longrightarrow>
            (\<exists>td. unregisterPreviousProject s = Some td \<and> td_controller td = c' \<and>
               m' \<in> fst ` set (monitors (project_heap s (td_project td)))))"
      using assms(1) unfolding well_bound_def by blast
    then show ?thesis by simp
  next
    case False
    then have "m' = m" "c' = c"
      using that set_update_listeners_created [of c m s] by auto
    then show ?thesis
      using td assms(4) by simp
  qed
  have 4: "\<forall>p c. (p, c) \<in> set (create_listeners ?s) \<longrightarrow>
         c < next_id ?s \<and>
         (c \<notin> aborted ?s \<longrightarrow>
            unregisterPreviousProject ?s = Some \<lparr>td_project = p, td_controller = c\<rparr>)"
    using assms(1) by (simp add: well_bound_def)
  show ?thesis
    unfolding well_bound_def using 1 2 3 4 by blast
qed

lemma well_bound_fold_createmonitor:
  "well_bound s \<Longrightarrow> set ls \<subseteq> set (create_listeners s) \<Longrightarrow>
   m \<in> fst ` set (monitors (project_heap s p)) \<Longrightarrow>
   well_bound (fold (deliver_createmonitor p m) ls s)"
proof (induction ls arbitrary: s)
  case Nil
  then show ?case by simp
next
  case (Cons l ls)
  let ?s = "deliver_createmonitor p m l s"
  have l: "l \<in> set (create_listeners s)"
    using Cons.prems(2) by simp
  have wb: "well_bound ?s"
  proof (cases "fst l = p \<and> snd l \<notin> aborted s")
    case True
    then have "(p, snd l) \<in> set (create_listeners s)"
      using l by (cases l) auto
    then show ?thesis
      using True well_bound_handleMonitorCreated [OF Cons.prems(1) _ _ Cons.prems(3), of "snd l"]
      by (simp add: deliver_createmonitor_def)
  next
    case False
    then show ?thesis
      using Cons.prems(1) by (auto simp: deliver_createmonitor_def)
  qed
  have same: "create_listeners ?s = create_listeners s" "project_heap ?s = project_heap s"
    by (simp_all add: deliver_createmonitor_def)
  show ?case
    using Cons.IH [OF wb] Cons.prems(2,3) same by simp
qed

lemma well_bound_project_createMonitor:
  assumes "well_bound s"
  shows "well_bound (project_createMonitor p m b s)"
proof -
  let ?h = "(project_heap s)
            (p := (project_heap s p)\<lparr>monitors := monitors (project_heap s p) @ [(m, b)]\<rparr>)"
  let ?s = "s\<lparr>project_heap := ?h\<rparr>"
  have mono: "fst ` set (monitors (project_heap s q)) \<subseteq> fst ` set (monitors (?h q))" for q
    by auto
  have pm: "pending_monitors s \<subseteq> pending_monitors ?s"
    using mono by (auto simp: pending_monitors_def split: option.splits)
  have 1: "teardown_inv ?s"
    using assms pm by (auto simp: well_bound_def teardown_inv_def pending_def)
  have 3: "c < next_id ?s \<and>
         (c \<notin> aborted ?s \<longrightarrow>
            (\<exists>td. unregisterPreviousProject ?s = Some td \<and> td_controller td = c \<and>
               m' \<in> fst ` set (monitors (project_heap ?s (td_project td)))))"
    if "(m', c) \<in> set (update_listeners ?s)" for m' c
  proof -
    have "c < next_id s \<and>
         (c \<notin> aborted s \<longrightarrow>
            (\<exists>td. unregisterPreviousProject s = Some td \<and> td_controller td = c \<and>
               m' \<in> fst ` set (monitors (project_heap s (td_project td)))))"
      using assms that unfolding well_bound_def by (simp; blast)
    then show ?thesis
      using mono by (simp del: fun_upd_apply; blast)
  qed
  have "well_bound ?s"
    unfolding well_bound_def using 1 3 assms by (simp add: well_bound_def del: fun_upd_apply)
  moreover have "m \<in> fst ` set (monitors (project_heap ?s p))"
    by simp
  ultimately show ?thesis
    using well_bound_fold_createmonitor [of ?s "create_listeners ?s" m p]
    by (simp add: project_createMonitor_def dispatch_createmonitor_def)
qed


lemma removeMonitorView_aborted: "aborted s \<subseteq> aborted (removeMonitorView m s)"
  by (auto simp: removeMonitorView_def abort_controller_def split: option.splits)

lemma fold_remove_aborted: "aborted s \<subseteq> aborted (fold (\<lambda>(m, b). removeMonitorView m) ms s)"
proof (induction ms arbitrary: s)
  case Nil
  then show ?case by simp
next
  case (Cons a ms)
  obtain m b where a: "a = (m, b)" by (cases a)
  show ?case
    using removeMonitorView_aborted [of s m] Cons.IH [of "removeMonitorView m s"]
    by (auto simp: a)
qed

lemma run_unregister_aborted:
  "insert (td_controller td) (aborted s) \<subseteq> aborted (run_unregisterPreviousProject td s)"
  using fold_remove_aborted [of "stop (s\<lparr>project := None\<rparr>)"
      "monitors (project_heap s (td_project td))"]
  by (auto simp: run_unregisterPreviousProject_def unregisterProject_def abort_controller_def
      stop_def Let_def split: option.splits)

lemma setProject_aborted:
  "(case unregisterPreviousProject s of None \<Rightarrow> aborted s
    | Some td \<Rightarrow> insert (td_controller td) (aborted s)) - {next_id s}
   \<subseteq> aborted (setProject x s)"
  using run_unregister_aborted [of _ s]
  by (cases "unregisterPreviousProject s"; cases x; cases "stage s")
     (auto simp: setProject_simps)

lemma setProject_all_listeners:
  "update_listeners (setProject x s) = update_listeners s @
     (case x of
        None \<Rightarrow> []
      | Some p \<Rightarrow>
          (case stage s of
             None \<Rightarrow> []
           | Some stg \<Rightarrow> map (\<lambda>(m, b). (m, next_id s)) (monitors (project_heap s p))))"
  "create_listeners (setProject x s) = create_listeners s @
     (case x of None \<Rightarrow> [] | Some p \<Rightarrow> [(p, next_id s)])"
  by (cases "unregisterPreviousProject s"; cases x; cases "stage s";
      simp add: setProject_simps)+

lemma well_bound_setProject:
  assumes "well_bound s"
  shows "well_bound (setProject x s)"
proof -
  let ?s = "setProject x s"
  have inv: "teardown_inv s"
    using assms by (simp add: well_bound_def)
  have le: "next_id s \<le> next_id ?s"
    by (simp add: setProject_fields split: option.splits)
  have old: "c \<in> aborted ?s" if "c < next_id s"
    and "c \<in> aborted s \<or> (\<exists>td. unregisterPreviousProject s = Some td \<and> td_controller td = c)"
    for c
    using that setProject_aborted [of s x] by (auto split: option.splits)
  have 1: "teardown_inv ?s"
    by (rule teardown_inv_setProject [OF inv])
  have 2: "\<forall>td. unregisterPreviousProject ?s = Some td \<longrightarrow> td_controller td < next_id ?s"
    by (cases x) (simp_all add: setProject_fields)
  have 3: "c < next_id ?s \<and>
         (c \<notin> aborted ?s \<longrightarrow>
            (\<exists>td. unregisterPreviousProject ?s = Some td \<and> td_controller td = c \<and>
               m \<in> fst ` set (monitors (project_heap ?s (td_project td)))))"
    if "(m, c) \<in> set (update_listeners ?s)" for m c
  proof (cases "(m, c) \<in> set (update_listeners s)")
    case True
    then have a: "c < next_id s \<and>
         (c \<notin> aborted s \<longrightarrow>
            (\<exists>td. unregisterPreviousProject s = Some td \<and> td_controller td = c \<and>
               m \<in> fst ` set (monitors (project_heap s (td_project td)))))"
      using assms unfolding well_bound_def by blast
    then have "c \<in> aborted ?s"
      using old [of c] by blast
    then show ?thesis
      using a le by simp
  next
    case False
    then have mem: "(m, c) \<in> set (case x of
        None \<Rightarrow> []
      | Some p \<Rightarrow>
          (case stage s of
             None \<Rightarrow> []
           | Some stg \<Rightarrow> map (\<lambda>(m, b). (m, next_id s)) (monitors (project_heap s p))))"
      using that by (simp add: setProject_all_listeners)
    then obtain p where x: "x = Some p"
      by (cases x) auto
    have "c = next_id s \<and> m \<in> fst ` set (monitors (project_heap s p))"
      using mem x by (cases "stage s") force+
    then have c: "c = next_id s" and m: "m \<in> fst ` set (monitors (project_heap s p))"
      by simp_all
    show ?thesis
      using m by (simp add: x c setProject_fields)
  qed
  have 4: "c < next_id ?s \<and>
         (c \<notin> aborted ?s \<longrightarrow>
            unregisterPreviousProject ?s = Some \<lparr>td_project = p, td_controller = c\<rparr>)"
    if "(p, c) \<in> set (create_listeners ?s)" for p c
  proof (cases "(p, c) \<in> set (create_listeners s)")
    case True
    then have a: "c < next_id s \<and>
         (c \<notin> aborted s \<longrightarrow>
            unregisterPreviousProject s = Some \<lparr>td_project = p, td_controller = c\<rparr>)"
      using assms unfolding well_bound_def by blast
    then have "c \<in> aborted ?s"
      using old [of c] by force
    then show ?thesis
      using a le by simp
  next
    case False
    then have "x = Some p" and "c = next_id s"
      using that by (auto simp: setProject_all_listeners split: option.splits)
    then show ?thesis
      by (simp add: setProject_fields)
  qed
  show ?thesis
    unfolding well_bound_def using 1 2 3 4 by blast
qed

lemma well_bound_new: "well_bound (new_Runtime ms ps pl)"
  using teardown_inv_new [of ms ps pl] by (simp add: well_bound_def) (simp add: new_Runtime_def)

lemma reachable_well_bound: "reachable cb s \<Longrightarrow> well_bound s"
proof (induction rule: reachable.induct)
  case (r_new ms ps pl)
  show ?case by (rule well_bound_new)
next
  case (r_setProject s x)
  then show ?case by (simp add: well_bound_setProject)
next
  case (r_attachStage s y)
  from r_attachStage.IH show ?case by (rule well_bound_frame_views) (simp_all add: frame_attachStage)
next
  case (r_start s)
  from r_start.IH show ?case by (rule well_bound_frame_views) (simp_all add: frame_start)
next
  case (r_stop s)
  from r_stop.IH show ?case by (rule well_bound_frame_views) (simp_all add: frame_stop)
next
  case (r_tick s)
  from r_tick.IH show ?case by (rule well_bound_frame_views) (simp_all add: frame_step)
next
  case (r_visible s m b)
  from r_visible.IH show ?case by (rule well_bound_frame_views) (simp_all add: frame_set_visible)
next
  case (r_updated s m)
  then show ?case by (simp add: well_bound_dispatch_updatemonitor)
next
  case (r_created s p m blk)
  then show ?case by (simp add: well_bound_project_createMonitor)
next
  case (r_slider s m v)
  from r_slider.IH show ?case by (rule well_bound_frame_views) (simp_all add: frame_sliderchange)
next
  case (r_pointermove s stg ev)
  from r_pointermove.IH show ?case by (rule well_bound_frame_views) (simp_all add: frame_pointer)
next
  case (r_pointerdown s)
  from r_pointerdown.IH show ?case by (rule well_bound_frame_views) (simp_all add: frame_pointer)
next
  case (r_pointerup s)
  from r_pointerup.IH show ?case by (rule well_bound_frame_views) (simp_all add: frame_pointer)
next
  case (r_keydown s k)
  from r_keydown.IH show ?case by (rule well_bound_frame_views) (simp_all add: frame_keys)
next
  case (r_keyup s k)
  from r_keyup.IH show ?case by (rule well_bound_frame_views) (simp_all add: frame_keys)
qed

lemma reachable_teardown_inv: "reachable cb s \<Longrightarrow> teardown_inv s"
  using reachable_well_bound [of cb s] by (simp add: well_bound_def)


subsection \<open>A monitor shown, hidden and shown again\<close>

text \<open>
  A notification is delivered to every listener of the monitor that is still attached,
  in turn. The first of them that runs creates the view of a visible monitor, or removes
  the view of a hidden one; the others find the monitor as the first left it.
\<close>

lemma set_visible_listeners [simp]:
  "update_listeners (set_visible m b s) = update_listeners s"
  by (simp add: set_visible_def)

lemma handle_show_more:
  assumes "project s = Some p" and "stage s = Some stg" and "visible (monitor_heap s m)"
    and "monitorViews s m = None"
  shows "\<exists>es. trace (handleMonitorUpdated cb m s) = trace s @ es \<and>
           filter is_createMonitorView es = [Stage_createMonitorView stg (next_id s)] \<and>
           filter is_View_remove es = []"
    and "aborted (handleMonitorUpdated cb m s) = aborted s - {Suc (next_id s)}"
  using assms
  by (simp_all add: handleMonitorUpdated_def fetchOrCreateView_def new_AbortController_def
      Let_def split: option.splits)

lemma handle_keep_more:
  assumes "project s = Some p" and "stage s = Some stg" and "visible (monitor_heap s m)"
    and "monitorViews s m = Some e"
  shows "\<exists>es. trace (handleMonitorUpdated cb m s) = trace s @ es \<and>
           filter is_createMonitorView es = [] \<and> filter is_View_remove es = []"
    and "next_id (handleMonitorUpdated cb m s) = next_id s"
  using assms
  by (simp_all add: handleMonitorUpdated_def fetchOrCreateView_def new_AbortController_def
      Let_def split: option.splits)

lemma handle_hide_more:
  assumes "project s = Some p" and "stage s = Some stg" and "\<not> visible (monitor_heap s m)"
    and "monitorViews s m = Some e"
  shows "trace (handleMonitorUpdated cb m s) =
           trace s @ [View_remove (view e), Controller_abort (abort e)]"
    and "aborted (handleMonitorUpdated cb m s) = insert (abort e) (aborted s)"
  using assms
  by (simp_all add: handleMonitorUpdated_def removeMonitorView_def abort_controller_def
      Let_def split: option.splits)

lemma handle_listeners [simp]:
  "update_listeners (handleMonitorUpdated cb m s) = update_listeners s"
  using frame_handleMonitorUpdated [of s cb m] by (simp add: frame_def)

lemma fold_unbound:
  "project t = None \<or> stage t = None \<Longrightarrow> fold (deliver_updatemonitor cb m) ls t = t"
  by (induction ls) (auto simp: deliver_updatemonitor_def handleMonitorUpdated_def split: option.splits)

lemma fold_hidden:
  assumes "project t = Some p" and "stage t = Some stg" and "\<not> visible (monitor_heap t m)"
    and "monitorViews t m = None"
  shows "fold (deliver_updatemonitor cb m) ls t = t"
  using assms by (induction ls) (simp_all add: deliver_updatemonitor_def handle_hidden)

lemma fold_dead:
  "\<not> list_ex (\<lambda>l. fst l = m \<and> snd l \<notin> aborted t) ls \<Longrightarrow>
   fold (deliver_updatemonitor cb m) ls t = t"
  by (induction ls) (auto simp: deliver_updatemonitor_def)

lemma fold_keep:
  assumes "project t = Some p" and "stage t = Some stg" and "visible (monitor_heap t m)"
    and "monitorViews t m = Some e"
  shows "\<exists>es. trace (fold (deliver_updatemonitor cb m) ls t) = trace t @ es \<and>
           filter is_createMonitorView es = [] \<and> filter is_View_remove es = [] \<and>
           monitorViews (fold (deliver_updatemonitor cb m) ls t) = monitorViews t \<and>
           aborted (fold (deliver_updatemonitor cb m) ls t) = aborted t \<and>
           next_id (fold (deliver_updatemonitor cb m) ls t) = next_id t \<and>
           update_listeners (fold (deliver_updatemonitor cb m) ls t) = update_listeners t"
  using assms
proof (induction ls arbitrary: t)
  case Nil
  then show ?case by simp
next
  case (Cons l ls)
  show ?case
  proof (cases "fst l = m \<and> snd l \<notin> aborted t")
    case False
    then have "deliver_updatemonitor cb m l t = t"
      by (auto simp: deliver_updatemonitor_def)
    then show ?thesis using Cons.IH [OF Cons.prems] by simp
  next
    case True
    let ?u = "handleMonitorUpdated cb m t"
    have d: "deliver_updatemonitor cb m l t = ?u"
      using True by (simp add: deliver_updatemonitor_def)
    obtain es where es: "trace ?u = trace t @ es" "filter is_createMonitorView es = []"
        "filter is_View_remove es = []"
      using handle_keep_more(1) [OF Cons.prems, of cb] by blast
    have u: "project ?u = Some p" "stage ?u = Some stg" "visible (monitor_heap ?u m)"
        "monitorViews ?u m = Some e"
      using Cons.prems by (simp_all add: handle_bound handle_keep(1) [OF Cons.prems])
    obtain fs where fs: "trace (fold (deliver_updatemonitor cb m) ls ?u) = trace ?u @ fs"
        "filter is_createMonitorView fs = []" "filter is_View_remove fs = []"
        "monitorViews (fold (deliver_updatemonitor cb m) ls ?u) = monitorViews ?u"
        "aborted (fold (deliver_updatemonitor cb m) ls ?u) = aborted ?u"
        "next_id (fold (deliver_updatemonitor cb m) ls ?u) = next_id ?u"
        "update_listeners (fold (deliver_updatemonitor cb m) ls ?u) = update_listeners ?u"
      using Cons.IH [OF u] by blast
    show ?thesis
      apply (rule exI [of _ "es @ fs"])
      using es fs handle_keep(1,4) [OF Cons.prems, of cb] handle_keep_more(2) [OF Cons.prems, of cb]
      by (simp add: d)
  qed
qed

lemma fold_show:
  assumes "project t = Some p" and "stage t = Some stg" and "visible (monitor_heap t m)"
    and "monitorViews t m = None"
    and "list_ex (\<lambda>l. fst l = m \<and> snd l \<notin> aborted t) ls"
  shows "\<exists>es. trace (fold (deliver_updatemonitor cb m) ls t) = trace t @ es \<and>
           filter is_createMonitorView es = [Stage_createMonitorView stg (next_id t)] \<and>
           filter is_View_remove es = [] \<and>
           monitorViews (fold (deliver_updatemonitor cb m) ls t) =
             (monitorViews t)(m \<mapsto> \<lparr>view = next_id t, abort = Suc (next_id t)\<rparr>) \<and>
           aborted (fold (deliver_updatemonitor cb m) ls t) = aborted t - {Suc (next_id t)} \<and>
           next_id (fold (deliver_updatemonitor cb m) ls t) = Suc (Suc (next_id t)) \<and>
           update_listeners (fold (deliver_updatemonitor cb m) ls t) = update_listeners t"
  using assms(5)
proof (induction ls)
  case Nil
  then show ?case by simp
next
  case (Cons l ls)
  note b = assms(1-4)
  show ?case
  proof (cases "fst l = m \<and> snd l \<notin> aborted t")
    case False
    then have "deliver_updatemonitor cb m l t = t"
      by (auto simp: deliver_updatemonitor_def)
    moreover have "list_ex (\<lambda>l. fst l = m \<and> snd l \<notin> aborted t) ls"
      using False Cons.prems by auto
    ultimately show ?thesis using Cons.IH by simp
  next
    case True
    let ?u = "handleMonitorUpdated cb m t"
    let ?e = "\<lparr>view = next_id t, abort = Suc (next_id t)\<rparr>"
    have d: "deliver_updatemonitor cb m l t = ?u"
      using True by (simp add: deliver_updatemonitor_def)
    obtain es where es: "trace ?u = trace t @ es"
        "filter is_createMonitorView es = [Stage_createMonitorView stg (next_id t)]"
        "filter is_View_remove es = []"
      using handle_show_more(1) [OF b, of cb] by blast
    have u: "project ?u = Some p" "stage ?u = Some stg" "visible (monitor_heap ?u m)"
        "monitorViews ?u m = Some ?e"
      using b by (simp_all add: handle_bound handle_show(1) [OF b])
    obtain fs where fs: "trace (fold (deliver_updatemonitor cb m) ls ?u) = trace ?u @ fs"
        "filter is_createMonitorView fs = []" "filter is_View_remove fs = []"
        "monitorViews (fold (deliver_updatemonitor cb m) ls ?u) = monitorViews ?u"
        "aborted (fold (deliver_updatemonitor cb m) ls ?u) = aborted ?u"
        "next_id (fold (deliver_updatemonitor cb m) ls ?u) = next_id ?u"
        "update_listeners (fold (deliver_updatemonitor cb m) ls ?u) = update_listeners ?u"
      using fold_keep [OF u, of cb ls] by blast
    show ?thesis
      apply (rule exI [of _ "es @ fs"])
      using es fs handle_show(1,5) [OF b, of cb] handle_show_more(2) [OF b, of cb]
      by (simp add: d)
  qed
qed

lemma fold_hide:
  assumes "project t = Some p" and "stage t = Some stg" and "\<not> visible (monitor_heap t m)"
    and "monitorViews t m = Some e"
    and "list_ex (\<lambda>l. fst l = m \<and> snd l \<notin> aborted t) ls"
  shows "trace (fold (deliver_updatemonitor cb m) ls t) =
           trace t @ [View_remove (view e), Controller_abort (abort e)] \<and>
         monitorViews (fold (deliver_updatemonitor cb m) ls t) = (monitorViews t)(m := None) \<and>
         aborted (fold (deliver_updatemonitor cb m) ls t) = insert (abort e) (aborted t) \<and>
         next_id (fold (deliver_updatemonitor cb m) ls t) = next_id t \<and>
         update_listeners (fold (deliver_updatemonitor cb m) ls t) = update_listeners t"
  using assms(5)
proof (induction ls)
  case Nil
  then show ?case by simp
next
  case (Cons l ls)
  note b = assms(1-4)
  show ?case
  proof (cases "fst l = m \<and> snd l \<notin> aborted t")
    case False
    then have "deliver_updatemonitor cb m l t = t"
      by (auto simp: deliver_updatemonitor_def)
    moreover have "list_ex (\<lambda>l. fst l = m \<and> snd l \<notin> aborted t) ls"
      using False Cons.prems by auto
    ultimately show ?thesis using Cons.IH by simp
  next
    case True
    let ?u = "handleMonitorUpdated cb m t"
    have d: "deliver_updatemonitor cb m l t = ?u"
      using True by (simp add: deliver_updatemonitor_def)
    have u: "project ?u = Some p" "stage ?u = Some stg" "\<not> visible (monitor_heap ?u m)"
        "monitorViews ?u m = None"
      using b by (simp_all add: handle_bound handle_hide(1) [OF b])
    have "fold (deliver_updatemonitor cb m) ls ?u = ?u"
      by (rule fold_hidden [OF u])
    then show ?thesis
      using handle_hide(1,4) [OF b, of cb] handle_hide_more [OF b, of cb]
      by (simp add: d)
  qed
qed


lemma notify_fold:
  "notify cb m b s = fold (deliver_updatemonitor cb m) (update_listeners s) (set_visible m b s)"
  by (simp add: notify_def dispatch_updatemonitor_def)

lemma effects_since_append: "trace s' = trace s @ es \<Longrightarrow> effects_since s s' = es"
  by (simp add: effects_since_def)

lemma notify_show:
  assumes "project s = Some p" and "stage s = Some stg" and "live_listener m s"
    and "monitorViews s m = None"
  shows "filter is_createMonitorView (effects_since s (notify cb m True s)) =
           [Stage_createMonitorView stg (next_id s)]"
    and "filter is_View_remove (effects_since s (notify cb m True s)) = []"
    and "monitorViews (notify cb m True s) =
           (monitorViews s)(m \<mapsto> \<lparr>view = next_id s, abort = Suc (next_id s)\<rparr>)"
    and "aborted (notify cb m True s) = aborted s - {Suc (next_id s)}"
    and "next_id (notify cb m True s) = Suc (Suc (next_id s))"
    and "update_listeners (notify cb m True s) = update_listeners s"
proof -
  let ?t = "set_visible m True s"
  have t: "project ?t = Some p" "stage ?t = Some stg" "visible (monitor_heap ?t m)"
      "monitorViews ?t m = None"
      "list_ex (\<lambda>l. fst l = m \<and> snd l \<notin> aborted ?t) (update_listeners s)"
    using assms by (simp_all add: live_listener_def)
  obtain es where es: "trace (notify cb m True s) = trace s @ es"
      "filter is_createMonitorView es = [Stage_createMonitorView stg (next_id s)]"
      "filter is_View_remove es = []"
      "monitorViews (notify cb m True s) =
         (monitorViews s)(m \<mapsto> \<lparr>view = next_id s, abort = Suc (next_id s)\<rparr>)"
      "aborted (notify cb m True s) = aborted s - {Suc (next_id s)}"
      "next_id (notify cb m True s) = Suc (Suc (next_id s))"
      "update_listeners (notify cb m True s) = update_listeners s"
    using fold_show [OF t, of cb] by (auto simp: notify_fold)
  show "filter is_createMonitorView (effects_since s (notify cb m True s)) =
           [Stage_createMonitorView stg (next_id s)]"
    and "filter is_View_remove (effects_since s (notify cb m True s)) = []"
    using es(1-3) by (simp_all add: effects_since_append)
  show "monitorViews (notify cb m True s) =
           (monitorViews s)(m \<mapsto> \<lparr>view = next_id s, abort = Suc (next_id s)\<rparr>)"
    and "aborted (notify cb m True s) = aborted s - {Suc (next_id s)}"
    and "next_id (notify cb m True s) = Suc (Suc (next_id s))"
    and "update_listeners (notify cb m True s) = update_listeners s"
    using es(4-7) by simp_all
qed

lemma notify_keep:
  assumes "project s = Some p" and "stage s = Some stg" and "monitorViews s m = Some e"
  shows "filter is_createMonitorView (effects_since s (notify cb m True s)) = []"
    and "filter is_View_remove (effects_since s (notify cb m True s)) = []"
    and "monitorViews (notify cb m True s) = monitorViews s"
proof -
  let ?t = "set_visible m True s"
  have t: "project ?t = Some p" "stage ?t = Some stg" "visible (monitor_heap ?t m)"
      "monitorViews ?t m = Some e"
    using assms by simp_all
  obtain es where es: "trace (notify cb m True s) = trace s @ es"
      "filter is_createMonitorView es = []" "filter is_View_remove es = []"
      "monitorViews (notify cb m True s) = monitorViews s"
    using fold_keep [OF t, of cb "update_listeners s"] by (auto simp: notify_fold)
  show "filter is_createMonitorView (effects_since s (notify cb m True s)) = []"
    and "filter is_View_remove (effects_since s (notify cb m True s)) = []"
    using es(1-3) by (simp_all add: effects_since_append)
  show "monitorViews (notify cb m True s) = monitorViews s"
    using es(4) .
qed

lemma notify_hide:
  assumes "project s = Some p" and "stage s = Some stg" and "live_listener m s"
    and "monitorViews s m = Some e"
  shows "effects_since s (notify cb m False s) =
           [View_remove (view e), Controller_abort (abort e)]"
    and "monitorViews (notify cb m False s) = (monitorViews s)(m := None)"
    and "aborted (notify cb m False s) = insert (abort e) (aborted s)"
    and "next_id (notify cb m False s) = next_id s"
    and "update_listeners (notify cb m False s) = update_listeners s"
proof -
  let ?t = "set_visible m False s"
  have t: "project ?t = Some p" "stage ?t = Some stg" "\<not> visible (monitor_heap ?t m)"
      "monitorViews ?t m = Some e"
      "list_ex (\<lambda>l. fst l = m \<and> snd l \<notin> aborted ?t) (update_listeners s)"
    using assms by (simp_all add: live_listener_def)
  have f: "trace (notify cb m False s) =
        trace s @ [View_remove (view e), Controller_abort (abort e)]"
      "monitorViews (notify cb m False s) = (monitorViews s)(m := None)"
      "aborted (notify cb m False s) = insert (abort e) (aborted s)"
      "next_id (notify cb m False s) = next_id s"
      "update_listeners (notify cb m False s) = update_listeners s"
    using fold_hide [OF t, of cb] by (simp_all add: notify_fold)
  show "effects_since s (notify cb m False s) =
           [View_remove (view e), Controller_abort (abort e)]"
    using f(1) by (simp add: effects_since_append)
  show "monitorViews (notify cb m False s) = (monitorViews s)(m := None)"
    and "aborted (notify cb m False s) = insert (abort e) (aborted s)"
    and "next_id (notify cb m False s) = next_id s"
    and "update_listeners (notify cb m False s) = update_listeners s"
    using f(2-5) by simp_all
qed

lemma notify_hidden:
  assumes "project s = Some p" and "stage s = Some stg" and "monitorViews s m = None"
  shows "notify cb m False s = set_visible m False s"
  using assms by (simp add: notify_fold fold_hidden)

lemma notify_nothing:
  assumes "project s = None \<or> stage s = None \<or> \<not> live_listener m s"
  shows "notify cb m b s = set_visible m b s"
proof (cases "project s = None \<or> stage s = None")
  case True
  then show ?thesis by (simp add: notify_fold fold_unbound)
next
  case False
  then have "\<not> list_ex (\<lambda>l. fst l = m \<and> snd l \<notin> aborted (set_visible m b s)) (update_listeners s)"
    using assms by (auto simp: live_listener_def)
  then show ?thesis by (simp add: notify_fold fold_dead)
qed

lemma notify_bound [simp]:
  "project (notify cb m b s) = project s"
  "stage (notify cb m b s) = stage s"
proof -
  have "project (fold (deliver_updatemonitor cb m) ls t) = project t \<and>
        stage (fold (deliver_updatemonitor cb m) ls t) = stage t" for ls t
    by (induction ls arbitrary: t) (simp_all add: deliver_updatemonitor_def handle_bound)
  then show "project (notify cb m b s) = project s" "stage (notify cb m b s) = stage s"
    by (simp_all add: notify_fold)
qed

lemma effects_since_same [simp]: "effects_since s (set_visible m b s) = []"
  by (simp add: effects_since_def)

lemma live_listener_below:
  assumes "well_bound s" and "live_listener m s"
  shows "\<exists>c. (m, c) \<in> set (update_listeners s) \<and> c \<notin> aborted s \<and> c < next_id s"
proof -
  obtain l where l: "l \<in> set (update_listeners s)" "fst l = m" "snd l \<notin> aborted s"
    using assms(2) by (auto simp: live_listener_def list_ex_iff)
  then have "(m, snd l) \<in> set (update_listeners s)"
    by (cases l) auto
  moreover from this have "snd l < next_id s"
    using assms(1) unfolding well_bound_def by blast
  ultimately show ?thesis using l(3) by blast
qed

lemma live_listener_intro:
  "(m, c) \<in> set (update_listeners s) \<Longrightarrow> c \<notin> aborted s \<Longrightarrow> live_listener m s"
  by (force simp: live_listener_def list_ex_iff)

text \<open>
  \<^bold>\<open>C4.\<close> As stated, a monitor going visible, invisible, visible, with an update
  notification delivered after each change, gets one view created, that view removed,
  and one view created; and an invisible monitor never has a view. The handler returns
  at once when no stage is attached (or no project is bound). With the stage detached
  after the first notification, the second notification removes nothing: the monitor is
  invisible and keeps its view, whose controller is not aborted, and the third creates
  nothing.
\<close>

theorem show_hide_show_counterexample:
  "filter is_createMonitorView (trace ex_shown) = [Stage_createMonitorView 0 4] \<and>
   \<not> visible (monitor_heap ex_hidden 0) \<and>
   monitorViews ex_hidden 0 = Some \<lparr>view = 4, abort = 5\<rparr> \<and>
   5 \<notin> aborted ex_hidden \<and>
   filter is_View_remove (trace ex_hidden) = [] \<and>
   visible (monitor_heap ex_reshown 0) \<and>
   filter is_createMonitorView (trace ex_reshown) = [Stage_createMonitorView 0 4]"
  by (simp add: ex_state_defs ex_defs op_defs Let_def eval_nat_numeral)

text \<open>
  \<^bold>\<open>C4\<close>, amended. Take a state in which a project is bound, a stage is attached and
  the monitor has a live update listener, and let the monitor's \<open>visible\<close> flag be set
  and the update notification delivered to its listeners. Then the monitor has a view
  afterwards exactly when it is visible; exactly one view is created if it is visible
  and had none, and none otherwise; exactly one view is removed if it is hidden and had
  one, and none otherwise; and the removal is followed by the abort of that view's
  controller and nothing else. So a monitor that still has a view from before gets none
  created when it is shown.

  Take moreover a state the runtime can reach, in which in addition the monitor has no
  view. Then showing, hiding and showing the monitor again, the notification delivered
  each time, creates one view, removes that view, aborting its controller and dropping
  its entry, and creates one new view, whose controller is not aborted.

  With no project bound, no stage attached or no live update listener on the monitor,
  the notification changes nothing in the runtime.
\<close>

theorem show_hide_show:
  "(project s = Some p \<and> stage s = Some stg \<and> live_listener m s \<longrightarrow>
      (monitorViews (notify cb m b s) m \<noteq> None) = b \<and>
      length (filter is_createMonitorView (effects_since s (notify cb m b s))) =
        (if b \<and> monitorViews s m = None then 1 else 0) \<and>
      length (filter is_View_remove (effects_since s (notify cb m b s))) =
        (if \<not> b \<and> monitorViews s m \<noteq> None then 1 else 0) \<and>
      (\<forall>e. \<not> b \<and> monitorViews s m = Some e \<longrightarrow>
         effects_since s (notify cb m b s) = [View_remove (view e), Controller_abort (abort e)] \<and>
         abort e \<in> aborted (notify cb m b s))) \<and>
   (reachable cb s \<and> project s = Some p \<and> stage s = Some stg \<and> live_listener m s \<and>
    monitorViews s m = None \<longrightarrow>
      (let s1 = notify cb m True s; s2 = notify cb m False s1; s3 = notify cb m True s2
       in filter is_createMonitorView (effects_since s s1) = [Stage_createMonitorView stg (next_id s)] \<and>
          filter is_View_remove (effects_since s s1) = [] \<and>
          monitorViews s1 m = Some \<lparr>view = next_id s, abort = Suc (next_id s)\<rparr> \<and>
          effects_since s1 s2 = [View_remove (next_id s), Controller_abort (Suc (next_id s))] \<and>
          monitorViews s2 m = None \<and> Suc (next_id s) \<in> aborted s2 \<and>
          filter is_createMonitorView (effects_since s2 s3) = [Stage_createMonitorView stg (next_id s + 2)] \<and>
          filter is_View_remove (effects_since s2 s3) = [] \<and>
          monitorViews s3 m = Some \<lparr>view = next_id s + 2, abort = next_id s + 3\<rparr> \<and>
          next_id s + 3 \<notin> aborted s3)) \<and>
   (project s = None \<or> stage s = None \<or> \<not> live_listener m s \<longrightarrow>
      notify cb m b s = set_visible m b s)"
proof (intro conjI)
  show "project s = Some p \<and> stage s = Some stg \<and> live_listener m s \<longrightarrow>
      (monitorViews (notify cb m b s) m \<noteq> None) = b \<and>
      length (filter is_createMonitorView (effects_since s (notify cb m b s))) =
        (if b \<and> monitorViews s m = None then 1 else 0) \<and>
      length (filter is_View_remove (effects_since s (notify cb m b s))) =
        (if \<not> b \<and> monitorViews s m \<noteq> None then 1 else 0) \<and>
      (\<forall>e. \<not> b \<and> monitorViews s m = Some e \<longrightarrow>
         effects_since s (notify cb m b s) = [View_remove (view e), Controller_abort (abort e)] \<and>
         abort e \<in> aborted (notify cb m b s))"
  proof
  assume a: "project s = Some p \<and> stage s = Some stg \<and> live_listener m s"
  then have b: "project s = Some p" "stage s = Some stg" "live_listener m s" by simp_all
  show "(monitorViews (notify cb m b s) m \<noteq> None) = b \<and>
      length (filter is_createMonitorView (effects_since s (notify cb m b s))) =
        (if b \<and> monitorViews s m = None then 1 else 0) \<and>
      length (filter is_View_remove (effects_since s (notify cb m b s))) =
        (if \<not> b \<and> monitorViews s m \<noteq> None then 1 else 0) \<and>
      (\<forall>e. \<not> b \<and> monitorViews s m = Some e \<longrightarrow>
         effects_since s (notify cb m b s) = [View_remove (view e), Controller_abort (abort e)] \<and>
         abort e \<in> aborted (notify cb m b s))"
  proof (cases "monitorViews s m")
    case None
    show ?thesis
    proof (cases b)
      case True
      then show ?thesis using None by (simp add: notify_show [OF b None])
    next
      case False
      then show ?thesis using None by (simp add: notify_hidden [OF b(1,2) None])
    qed
  next
    case (Some e)
    show ?thesis
    proof (cases b)
      case True
      then show ?thesis using Some by (simp add: notify_keep [OF b(1,2) Some])
    next
      case False
      then show ?thesis using Some by (simp add: notify_hide [OF b Some])
    qed
  qed
  qed
next
  show "reachable cb s \<and> project s = Some p \<and> stage s = Some stg \<and> live_listener m s \<and>
    monitorViews s m = None \<longrightarrow>
      (let s1 = notify cb m True s; s2 = notify cb m False s1; s3 = notify cb m True s2
       in filter is_createMonitorView (effects_since s s1) = [Stage_createMonitorView stg (next_id s)] \<and>
          filter is_View_remove (effects_since s s1) = [] \<and>
          monitorViews s1 m = Some \<lparr>view = next_id s, abort = Suc (next_id s)\<rparr> \<and>
          effects_since s1 s2 = [View_remove (next_id s), Controller_abort (Suc (next_id s))] \<and>
          monitorViews s2 m = None \<and> Suc (next_id s) \<in> aborted s2 \<and>
          filter is_createMonitorView (effects_since s2 s3) = [Stage_createMonitorView stg (next_id s + 2)] \<and>
          filter is_View_remove (effects_since s2 s3) = [] \<and>
          monitorViews s3 m = Some \<lparr>view = next_id s + 2, abort = next_id s + 3\<rparr> \<and>
          next_id s + 3 \<notin> aborted s3)"
  proof
  assume a: "reachable cb s \<and> project s = Some p \<and> stage s = Some stg \<and> live_listener m s \<and>
    monitorViews s m = None"
  then have b: "project s = Some p" "stage s = Some stg" "live_listener m s"
    and n: "monitorViews s m = None" and wb: "well_bound s"
    by (auto intro: reachable_well_bound)
  obtain c where c: "(m, c) \<in> set (update_listeners s)" "c \<notin> aborted s" "c < next_id s"
    using live_listener_below [OF wb b(3)] by blast
  define s1 where "s1 = notify cb m True s"
  define s2 where "s2 = notify cb m False s1"
  define s3 where "s3 = notify cb m True s2"
  let ?e = "\<lparr>view = next_id s, abort = Suc (next_id s)\<rparr>"
  note one = notify_show [OF b n, of cb, folded s1_def]
  have b1: "project s1 = Some p" "stage s1 = Some stg" "live_listener m s1"
    and v1: "monitorViews s1 m = Some ?e"
    using b c one by (auto simp: s1_def intro: live_listener_intro)
  note two = notify_hide [OF b1 v1, of cb, folded s2_def]
  have b2: "project s2 = Some p" "stage s2 = Some stg" "live_listener m s2"
    and v2: "monitorViews s2 m = None"
    using b1 c one two by (auto simp: s2_def intro: live_listener_intro)
  note three = notify_show [OF b2 v2, of cb, folded s3_def]
  have ids: "next_id s2 = Suc (Suc (next_id s))"
    using one two by simp
  have "filter is_createMonitorView (effects_since s s1) = [Stage_createMonitorView stg (next_id s)] \<and>
          filter is_View_remove (effects_since s s1) = [] \<and>
          monitorViews s1 m = Some \<lparr>view = next_id s, abort = Suc (next_id s)\<rparr> \<and>
          effects_since s1 s2 = [View_remove (next_id s), Controller_abort (Suc (next_id s))] \<and>
          monitorViews s2 m = None \<and> Suc (next_id s) \<in> aborted s2 \<and>
          filter is_createMonitorView (effects_since s2 s3) = [Stage_createMonitorView stg (next_id s + 2)] \<and>
          filter is_View_remove (effects_since s2 s3) = [] \<and>
          monitorViews s3 m = Some \<lparr>view = next_id s + 2, abort = next_id s + 3\<rparr> \<and>
          next_id s + 3 \<notin> aborted s3"
    using one(1,2) v1 two(1,3) v2 three(1-4) ids by (simp add: eval_nat_numeral)
  then show "let s1 = notify cb m True s; s2 = notify cb m False s1; s3 = notify cb m True s2
       in filter is_createMonitorView (effects_since s s1) = [Stage_createMonitorView stg (next_id s)] \<and>
          filter is_View_remove (effects_since s s1) = [] \<and>
          monitorViews s1 m = Some \<lparr>view = next_id s, abort = Suc (next_id s)\<rparr> \<and>
          effects_since s1 s2 = [View_remove (next_id s), Controller_abort (Suc (next_id s))] \<and>
          monitorViews s2 m = None \<and> Suc (next_id s) \<in> aborted s2 \<and>
          filter is_createMonitorView (effects_since s2 s3) = [Stage_createMonitorView stg (next_id s + 2)] \<and>
          filter is_View_remove (effects_since s2 s3) = [] \<and>
          monitorViews s3 m = Some \<lparr>view = next_id s + 2, abort = next_id s + 3\<rparr> \<and>
          next_id s + 3 \<notin> aborted s3"
    unfolding Let_def s1_def s2_def s3_def .
  qed
next
  show "project s = None \<or> stage s = None \<or> \<not> live_listener m s \<longrightarrow>
      notify cb m b s = set_visible m b s"
    using notify_nothing [of s m cb b] by blast
qed


theorem show_hide_show_witness:
  "project ex_restaged = Some 0 \<and> stage ex_restaged = Some 1 \<and> live_listener 0 ex_restaged \<and>
   monitorViews ex_restaged 0 = Some \<lparr>view = 4, abort = 5\<rparr> \<and>
   monitorViews (notify ex_collab 0 True ex_restaged) 0 \<noteq> None \<and>
   length (filter is_createMonitorView
     (effects_since ex_restaged (notify ex_collab 0 True ex_restaged))) = 0 \<and>
   length (filter is_View_remove
     (effects_since ex_restaged (notify ex_collab 0 True ex_restaged))) = 0 \<and>
   monitorViews (notify ex_collab 0 False ex_restaged) 0 = None \<and>
   length (filter is_createMonitorView
     (effects_since ex_restaged (notify ex_collab 0 False ex_restaged))) = 0 \<and>
   length (filter is_View_remove
     (effects_since ex_restaged (notify ex_collab 0 False ex_restaged))) = 1 \<and>
   effects_since ex_restaged (notify ex_collab 0 False ex_restaged) =
     [View_remove 4, Controller_abort 5] \<and>
   5 \<in> aborted (notify ex_collab 0 False ex_restaged) \<and>
   reachable ex_collab ex_bound \<and> project ex_bound = Some 0 \<and> stage ex_bound = Some 0 \<and>
   live_listener 0 ex_bound \<and> monitorViews ex_bound 0 = None \<and>
   (let s1 = notify ex_collab 0 True ex_bound;
        s2 = notify ex_collab 0 False s1;
        s3 = notify ex_collab 0 True s2
    in filter is_createMonitorView (effects_since ex_bound s1) =
         [Stage_createMonitorView 0 (next_id ex_bound)] \<and>
       filter is_View_remove (effects_since ex_bound s1) = [] \<and>
       monitorViews s1 0 = Some \<lparr>view = next_id ex_bound, abort = Suc (next_id ex_bound)\<rparr> \<and>
       effects_since s1 s2 =
         [View_remove (next_id ex_bound), Controller_abort (Suc (next_id ex_bound))] \<and>
       monitorViews s2 0 = None \<and>
       Suc (next_id ex_bound) \<in> aborted s2 \<and>
       filter is_createMonitorView (effects_since s2 s3) =
         [Stage_createMonitorView 0 (next_id ex_bound + 2)] \<and>
       filter is_View_remove (effects_since s2 s3) = [] \<and>
       monitorViews s3 0 =
         Some \<lparr>view = next_id ex_bound + 2, abort = next_id ex_bound + 3\<rparr> \<and>
       next_id ex_bound + 3 \<notin> aborted s3) \<and>
   stage ex_detached = None \<and>
   notify ex_collab 0 False ex_detached = set_visible 0 False ex_detached \<and>
   project ex_late = Some 0 \<and> stage ex_late = Some 0 \<and> \<not> live_listener 0 ex_late \<and>
   notify ex_collab 0 True ex_late = set_visible 0 True ex_late"
proof -
  have r: "project ex_restaged = Some 0 \<and> stage ex_restaged = Some 1 \<and>
      live_listener 0 ex_restaged \<and> monitorViews ex_restaged 0 = Some \<lparr>view = 4, abort = 5\<rparr>"
    by (simp add: ex_state_defs ex_defs op_defs live_listener_def Let_def eval_nat_numeral)
  have a: "reachable ex_collab ex_bound"
    by (simp add: ex_state_defs ex_runtime_def reachable.intros)
  have b: "project ex_bound = Some 0 \<and> stage ex_bound = Some 0 \<and> live_listener 0 ex_bound \<and>
      monitorViews ex_bound 0 = None"
    by (simp add: ex_state_defs ex_defs op_defs live_listener_def Let_def)
  have d: "stage ex_detached = None"
    by (simp add: ex_state_defs ex_defs op_defs Let_def)
  have l: "project ex_late = Some 0 \<and> stage ex_late = Some 0 \<and> \<not> live_listener 0 ex_late"
    by (simp add: ex_state_defs ex_defs op_defs live_listener_def Let_def)
  have r1: "monitorViews (notify ex_collab 0 True ex_restaged) 0 \<noteq> None \<and>
      length (filter is_createMonitorView
        (effects_since ex_restaged (notify ex_collab 0 True ex_restaged))) = 0 \<and>
      length (filter is_View_remove
        (effects_since ex_restaged (notify ex_collab 0 True ex_restaged))) = 0"
    using r show_hide_show [of ex_restaged 0 1 0 ex_collab True] by simp
  have r2: "monitorViews (notify ex_collab 0 False ex_restaged) 0 = None \<and>
      length (filter is_createMonitorView
        (effects_since ex_restaged (notify ex_collab 0 False ex_restaged))) = 0 \<and>
      length (filter is_View_remove
        (effects_since ex_restaged (notify ex_collab 0 False ex_restaged))) = 1 \<and>
      effects_since ex_restaged (notify ex_collab 0 False ex_restaged) =
        [View_remove 4, Controller_abort 5] \<and>
      5 \<in> aborted (notify ex_collab 0 False ex_restaged)"
    using r show_hide_show [of ex_restaged 0 1 0 ex_collab False] by simp
  show ?thesis
    using r r1 r2 a b d l show_hide_show [of ex_bound 0 0 0 ex_collab True]
      show_hide_show [of ex_detached 0 0 0 ex_collab False]
      show_hide_show [of ex_late 0 0 0 ex_collab True]
    by blast
qed


subsection \<open>Combining abort signals\<close>

lemmas abort_defs = AbortController_abort_def addEventListener_def removeEventListener_def onAbort_def
  anyAbortSignal_def deliver_abort_def signal_abort_def new_world_def Let_def


lemma any_aborted_iff: "any_aborted w sigs = (\<exists>s. Some s \<in> set sigs \<and> sig_aborted w s)"
  by (induction w sigs rule: any_aborted.induct) auto

lemma AbortController_abort_fields [simp]:
  "sig_aborted (AbortController_abort c w) = sig_aborted w"
  "sig_listeners (AbortController_abort c w) = sig_listeners w"
  "next_ctrl (AbortController_abort c w) = next_ctrl w"
  "ctrl_aborted (AbortController_abort c w) = (ctrl_aborted w)(c := True)"
  "abort_events (AbortController_abort c w) = abort_events w @ (if ctrl_aborted w c then [] else [c])"
  by (auto simp: AbortController_abort_def fun_upd_idem)

lemma removeEventListener_fields [simp]:
  "sig_aborted (removeEventListener s l w) = sig_aborted w"
  "next_ctrl (removeEventListener s l w) = next_ctrl w"
  "ctrl_aborted (removeEventListener s l w) = ctrl_aborted w"
  "abort_events (removeEventListener s l w) = abort_events w"
  "sig_listeners (removeEventListener s l w) s' =
     (if s' = s then remove1 l (sig_listeners w s') else sig_listeners w s')"
  by (simp_all add: removeEventListener_def)

lemma cleanup_fields [simp]:
  "sig_aborted (cleanup l sigs w) = sig_aborted w"
  "next_ctrl (cleanup l sigs w) = next_ctrl w"
  "ctrl_aborted (cleanup l sigs w) = ctrl_aborted w"
  "abort_events (cleanup l sigs w) = abort_events w"
  by (induction l sigs w rule: cleanup.induct) (simp_all add: removeEventListener_def)

lemma cleanup_listeners:
  "distinct (sig_listeners w s) \<Longrightarrow>
   distinct (sig_listeners (cleanup l sigs w) s) \<and>
   set (sig_listeners (cleanup l sigs w) s) =
     (if Some s \<in> set sigs then set (sig_listeners w s) - {l} else set (sig_listeners w s))"
proof (induction l sigs w rule: cleanup.induct)
  case (1 l w)
  then show ?case by simp
next
  case (2 l rest w)
  then show ?case by simp
next
  case (3 l s' rest w)
  have d: "distinct (sig_listeners (removeEventListener s' l w) s)"
    using "3.prems" by auto
  show ?case
    using "3.IH" [OF d] "3.prems" by auto
qed

lemma onAbort_fields [simp]:
  "sig_aborted (onAbort c sigs w) = sig_aborted w"
  "next_ctrl (onAbort c sigs w) = next_ctrl w"
  "ctrl_aborted (onAbort c sigs w) = (ctrl_aborted w)(c := True)"
  "abort_events (onAbort c sigs w) = abort_events w @ (if ctrl_aborted w c then [] else [c])"
  by (simp_all add: onAbort_def)

lemma onAbort_listeners:
  "distinct (sig_listeners w s) \<Longrightarrow>
   distinct (sig_listeners (onAbort c sigs w) s) \<and>
   set (sig_listeners (onAbort c sigs w) s) =
     (if Some s \<in> set sigs then set (sig_listeners w s) - {OnAbort c sigs}
      else set (sig_listeners w s))"
  using cleanup_listeners [of "AbortController_abort c w" s "OnAbort c sigs" sigs]
  by (simp add: onAbort_def)


lemma addEventListener_fields [simp]:
  "sig_aborted (addEventListener s l w) = sig_aborted w"
  "next_ctrl (addEventListener s l w) = next_ctrl w"
  "ctrl_aborted (addEventListener s l w) = ctrl_aborted w"
  "abort_events (addEventListener s l w) = abort_events w"
  by (simp_all add: addEventListener_def)

lemma addEventListener_listeners:
  "distinct (sig_listeners w s') \<Longrightarrow>
   distinct (sig_listeners (addEventListener s l w) s') \<and>
   set (sig_listeners (addEventListener s l w) s') =
     (if s' = s then insert l (set (sig_listeners w s')) else set (sig_listeners w s'))"
  by (auto simp: addEventListener_def)

lemma any_aborted_append [simp]:
  "any_aborted w (xs @ ys) = (any_aborted w xs \<or> any_aborted w ys)"
  by (auto simp: any_aborted_iff)

lemma loop_inv_listener:
  "loop_inv c sigs seen w \<Longrightarrow> OnAbort c sigs \<in> set (sig_listeners w s) \<Longrightarrow>
   Some s \<in> set seen"
  by (simp add: loop_inv_def) (metis listener.sel(1))

lemma anyAbortSignal_loop_combined:
  assumes "loop_inv c sigs seen w" and "sigs = seen @ rest"
  shows "combined c sigs (anyAbortSignal_loop c sigs rest w)"
  using assms
proof (induction c sigs rest w arbitrary: seen rule: anyAbortSignal_loop.induct)
  case (1 c sigs w)
  then show ?case
    by (auto simp: loop_inv_def combined_def attached_def) (metis listener.sel(1))
next
  case (2 c sigs rest w)
  have "loop_inv c sigs (seen @ [None]) w"
    using "2.prems"(1) by (auto simp: loop_inv_def)
  then show ?case
    using "2.IH" [of "seen @ [None]"] "2.prems"(2) by simp
next
  case (3 c sigs s rest w)
  show ?case
  proof (cases "sig_aborted w s")
    case True
    have mem: "Some s \<in> set sigs"
      using "3.prems"(2) by simp
    have seen: "set seen \<subseteq> set sigs"
      using "3.prems"(2) by auto
    have "combined c sigs (onAbort c sigs w)"
      unfolding combined_def attached_def
    proof (intro conjI allI)
      show "c < next_ctrl (onAbort c sigs w)"
        using "3.prems"(1) by (simp add: loop_inv_def)
      show "distinct (sig_listeners (onAbort c sigs w) s')" for s'
        using "3.prems"(1) onAbort_listeners [of w s' c sigs] by (simp add: loop_inv_def)
      show "l \<in> set (sig_listeners (onAbort c sigs w) s') \<and> ctrl l = c \<longrightarrow>
            l = OnAbort c sigs \<and> Some s' \<in> set sigs" for s' l
        using "3.prems"(1) onAbort_listeners [of w s' c sigs] seen
        by (auto simp: loop_inv_def split: if_splits)
      show "count_list (abort_events (onAbort c sigs w)) c =
            (if ctrl_aborted (onAbort c sigs w) c then 1 else 0)"
        using "3.prems"(1) by (simp add: loop_inv_def count_list_0_iff)
      show "ctrl_aborted (onAbort c sigs w) c = any_aborted (onAbort c sigs w) sigs"
        using True mem by (auto simp: any_aborted_iff)
      show "(OnAbort c sigs \<in> set (sig_listeners (onAbort c sigs w) s')) =
            (\<not> ctrl_aborted (onAbort c sigs w) c \<and> Some s' \<in> set sigs)" for s'
        using "3.prems"(1) onAbort_listeners [of w s' c sigs] seen
          loop_inv_listener [OF "3.prems"(1), of s']
        by (auto simp: loop_inv_def split: if_splits)
    qed
    then show ?thesis
      using True by simp
  next
    case False
    let ?w = "addEventListener s (OnAbort c sigs) w"
    have "loop_inv c sigs (seen @ [Some s]) ?w"
      unfolding loop_inv_def
    proof (intro conjI allI)
      show "c < next_ctrl ?w" "c \<notin> set (abort_events ?w)" "\<not> ctrl_aborted ?w c"
        using "3.prems"(1) by (simp_all add: loop_inv_def)
      show "distinct (sig_listeners ?w s')" for s'
        using "3.prems"(1) addEventListener_listeners [of w s' s "OnAbort c sigs"]
        by (simp add: loop_inv_def)
      show "l \<in> set (sig_listeners ?w s') \<and> ctrl l = c \<longrightarrow>
            l = OnAbort c sigs \<and> Some s' \<in> set (seen @ [Some s])" for s' l
        using "3.prems"(1) addEventListener_listeners [of w s' s "OnAbort c sigs"]
        by (auto simp: loop_inv_def split: if_splits)
      show "\<not> any_aborted ?w (seen @ [Some s])"
        using "3.prems"(1) False by (auto simp: loop_inv_def any_aborted_iff)
      show "Some s' \<in> set (seen @ [Some s]) \<longrightarrow>
            OnAbort c sigs \<in> set (sig_listeners ?w s')" for s'
        using "3.prems"(1) addEventListener_listeners [of w s' s "OnAbort c sigs"]
        by (auto simp: loop_inv_def split: if_splits)
    qed
    then show ?thesis
      using "3.IH" [OF False, of "seen @ [Some s]"] "3.prems"(2) False by simp
  qed
qed


lemma attached_listener:
  assumes "attached c sigs w" and "l \<in> set (sig_listeners w s)" and "ctrl l = c"
  shows "l = OnAbort c sigs \<and> Some s \<in> set sigs \<and> \<not> ctrl_aborted w c"
proof -
  have a: "\<forall>s l. l \<in> set (sig_listeners w s) \<and> ctrl l = c \<longrightarrow>
      l = OnAbort c sigs \<and> Some s \<in> set sigs"
    and b: "\<forall>s. OnAbort c sigs \<in> set (sig_listeners w s) \<longleftrightarrow>
      (\<not> ctrl_aborted w c \<and> Some s \<in> set sigs)"
    using assms(1) by (simp_all add: attached_def)
  from a assms(2,3) have "l = OnAbort c sigs \<and> Some s \<in> set sigs"
    by blast
  with b assms(2) show ?thesis
    by blast
qed

lemma attached_other_onAbort:
  assumes "attached c sigs w" and "c' \<noteq> c"
  shows "attached c sigs (onAbort c' sigs' w)"
  unfolding attached_def
proof (intro conjI allI)
  show "c < next_ctrl (onAbort c' sigs' w)"
    using assms by (simp add: attached_def)
  show "distinct (sig_listeners (onAbort c' sigs' w) s)" for s
    using assms onAbort_listeners [of w s c' sigs'] by (simp add: attached_def)
  show "l \<in> set (sig_listeners (onAbort c' sigs' w) s) \<and> ctrl l = c \<longrightarrow>
        l = OnAbort c sigs \<and> Some s \<in> set sigs" for s l
    using assms onAbort_listeners [of w s c' sigs'] attached_listener [OF assms(1), of l s]
    by (auto simp: attached_def split: if_splits)
  show "count_list (abort_events (onAbort c' sigs' w)) c =
        (if ctrl_aborted (onAbort c' sigs' w) c then 1 else 0)"
    using assms by (simp add: attached_def)
  show "(OnAbort c sigs \<in> set (sig_listeners (onAbort c' sigs' w) s)) =
        (\<not> ctrl_aborted (onAbort c' sigs' w) c \<and> Some s \<in> set sigs)" for s
    using assms onAbort_listeners [of w s c' sigs']
    by (auto simp: attached_def split: if_splits)
qed

lemma attached_own_onAbort:
  assumes "attached c sigs w"
  shows "attached c sigs (onAbort c sigs w)"
  unfolding attached_def
proof (intro conjI allI)
  show "c < next_ctrl (onAbort c sigs w)"
    using assms by (simp add: attached_def)
  show "distinct (sig_listeners (onAbort c sigs w) s)" for s
    using assms onAbort_listeners [of w s c sigs] by (simp add: attached_def)
  show "l \<in> set (sig_listeners (onAbort c sigs w) s) \<and> ctrl l = c \<longrightarrow>
        l = OnAbort c sigs \<and> Some s \<in> set sigs" for s l
    using assms onAbort_listeners [of w s c sigs] attached_listener [OF assms(1), of l s]
    by (auto simp: attached_def split: if_splits)
  show "count_list (abort_events (onAbort c sigs w)) c =
        (if ctrl_aborted (onAbort c sigs w) c then 1 else 0)"
    using assms by (simp add: attached_def)
  show "(OnAbort c sigs \<in> set (sig_listeners (onAbort c sigs w) s)) =
        (\<not> ctrl_aborted (onAbort c sigs w) c \<and> Some s \<in> set sigs)" for s
    using assms onAbort_listeners [of w s c sigs]
    by (auto simp: attached_def split: if_splits)
qed

lemma attached_other_add:
  assumes "attached c sigs w" and "ctrl l \<noteq> c"
  shows "attached c sigs (addEventListener s l w)"
  unfolding attached_def
proof (intro conjI allI)
  show "c < next_ctrl (addEventListener s l w)"
    using assms by (simp add: attached_def)
  show "distinct (sig_listeners (addEventListener s l w) s')" for s'
    using assms addEventListener_listeners [of w s' s l] by (simp add: attached_def)
  show "l' \<in> set (sig_listeners (addEventListener s l w) s') \<and> ctrl l' = c \<longrightarrow>
        l' = OnAbort c sigs \<and> Some s' \<in> set sigs" for s' l'
    using assms addEventListener_listeners [of w s' s l] attached_listener [OF assms(1), of l' s']
    by (auto simp: attached_def split: if_splits)
  show "count_list (abort_events (addEventListener s l w)) c =
        (if ctrl_aborted (addEventListener s l w) c then 1 else 0)"
    using assms by (simp add: attached_def)
  show "(OnAbort c sigs \<in> set (sig_listeners (addEventListener s l w) s')) =
        (\<not> ctrl_aborted (addEventListener s l w) c \<and> Some s' \<in> set sigs)" for s'
    using assms addEventListener_listeners [of w s' s l]
    by (auto simp: attached_def split: if_splits)
qed

lemma any_aborted_onAbort [simp]: "any_aborted (onAbort c sigs w) xs = any_aborted w xs"
  by (simp add: any_aborted_iff)

lemma any_aborted_add [simp]: "any_aborted (addEventListener s l w) xs = any_aborted w xs"
  by (simp add: any_aborted_iff)

lemma firing_step:
  assumes "firing c sigs s (l # rest) w"
  shows "firing c sigs s rest (deliver_abort s l w)"
proof (cases "l \<in> set (sig_listeners w s)")
  case False
  have "OnAbort c sigs \<noteq> l" if "\<not> ctrl_aborted w c" "Some s \<in> set sigs"
    using assms that False by (auto simp: firing_def attached_def)
  then show ?thesis
    using assms False by (auto simp: firing_def deliver_abort_def)
next
  case True
  obtain c' sigs' where l: "l = OnAbort c' sigs'"
    by (cases l)
  have att: "attached c sigs w"
    using assms by (simp add: firing_def)
  show ?thesis
  proof (cases "c' = c")
    case True
    have own: "l = OnAbort c sigs" "Some s \<in> set sigs" "\<not> ctrl_aborted w c"
      using attached_listener [OF att \<open>l \<in> set (sig_listeners w s)\<close>] True l by simp_all
    have "any_aborted w sigs"
      using own(2) assms by (auto simp: firing_def any_aborted_iff)
    then show ?thesis
      using assms \<open>l \<in> set (sig_listeners w s)\<close> own attached_own_onAbort [OF att]
      by (simp add: firing_def deliver_abort_def)
  next
    case False
    have "OnAbort c sigs \<noteq> l"
      using False l by simp
    then show ?thesis
      using assms \<open>l \<in> set (sig_listeners w s)\<close> attached_other_onAbort [OF att False, of sigs'] l False
      by (auto simp: firing_def deliver_abort_def)
  qed
qed

lemma firing_fold:
  "firing c sigs s ls w \<Longrightarrow> combined c sigs (fold (deliver_abort s) ls w)"
proof (induction ls arbitrary: w)
  case Nil
  then show ?case by (auto simp: firing_def combined_def)
next
  case (Cons l ls)
  show ?case
    using Cons.IH [OF firing_step [OF Cons.prems]] by simp
qed

lemma combined_signal_abort:
  assumes "combined c sigs w"
  shows "combined c sigs (signal_abort s w)"
proof (cases "sig_aborted w s")
  case True
  then show ?thesis
    using assms by (simp add: signal_abort_def)
next
  case False
  let ?w = "w\<lparr>sig_aborted := (sig_aborted w)(s := True)\<rparr>"
  have att: "attached c sigs ?w"
    using assms by (simp add: combined_def attached_def)
  have mono: "any_aborted w sigs \<Longrightarrow> any_aborted ?w sigs"
    by (auto simp: any_aborted_iff)
  have new: "any_aborted ?w sigs \<Longrightarrow> \<not> any_aborted w sigs \<Longrightarrow> Some s \<in> set sigs"
    by (auto simp: any_aborted_iff split: if_splits)
  have f3: "ctrl_aborted ?w c \<longrightarrow> any_aborted ?w sigs"
    using assms mono by (simp add: combined_def)
  have f4: "\<not> ctrl_aborted ?w c \<and> any_aborted ?w sigs \<longrightarrow>
      OnAbort c sigs \<in> set (sig_listeners ?w s) \<and> Some s \<in> set sigs"
    using assms new by (auto simp: combined_def attached_def)
  have "firing c sigs s (sig_listeners ?w s) ?w"
    unfolding firing_def using att f3 f4 by simp
  then show ?thesis
    using False firing_fold [of c sigs s "sig_listeners ?w s" ?w]
    by (simp add: signal_abort_def Let_def)
qed


lemma combined_other_loop:
  assumes "combined c sigs w" and "c' \<noteq> c"
  shows "combined c sigs (anyAbortSignal_loop c' sigs' rest w)"
  using assms
proof (induction c' sigs' rest w rule: anyAbortSignal_loop.induct)
  case (1 c' sigs' w)
  then show ?case by simp
next
  case (2 c' sigs' rest w)
  then show ?case by simp
next
  case (3 c' sigs' s rest w)
  show ?case
  proof (cases "sig_aborted w s")
    case True
    then show ?thesis
      using "3.prems" attached_other_onAbort [of c sigs w c' sigs']
      by (simp add: combined_def)
  next
    case False
    have "combined c sigs (addEventListener s (OnAbort c' sigs') w)"
      using "3.prems" attached_other_add [of c sigs w "OnAbort c' sigs'" s]
      by (simp add: combined_def)
    then show ?thesis
      using "3.IH" [OF False] "3.prems"(2) False by simp
  qed
qed

lemma combined_other_combine:
  assumes "combined c sigs w"
  shows "combined c sigs (snd (anyAbortSignal sigs' w))"
proof -
  let ?w = "w\<lparr>next_ctrl := Suc (next_ctrl w),
              ctrl_aborted := (ctrl_aborted w)(next_ctrl w := False)\<rparr>"
  have c: "c < next_ctrl w"
    using assms by (simp add: combined_def attached_def)
  have "combined c sigs ?w"
    using assms c by (simp add: combined_def attached_def any_aborted_iff)
  then show ?thesis
    using c combined_other_loop [of c sigs ?w "next_ctrl w" sigs' sigs']
    by (simp add: anyAbortSignal_def Let_def)
qed

lemma combined_new:
  assumes "world_ok w"
  shows "combined (next_ctrl w) sigs (snd (anyAbortSignal sigs w))"
proof -
  let ?w = "w\<lparr>next_ctrl := Suc (next_ctrl w),
              ctrl_aborted := (ctrl_aborted w)(next_ctrl w := False)\<rparr>"
  have "ctrl l \<noteq> next_ctrl w" if "l \<in> set (sig_listeners w s)" for s l
    using assms that unfolding world_ok_def by fastforce
  moreover have "next_ctrl w \<notin> set (abort_events w)"
    using assms unfolding world_ok_def by fastforce
  ultimately have "loop_inv (next_ctrl w) sigs [] ?w"
    using assms by (auto simp: loop_inv_def world_ok_def)
  then show ?thesis
    using anyAbortSignal_loop_combined [of "next_ctrl w" sigs "[]" ?w sigs]
    by (simp add: anyAbortSignal_def Let_def)
qed

lemma combined_env_step: "combined c sigs w \<Longrightarrow> combined c sigs (env_step e w)"
  by (cases e) (simp_all add: combined_signal_abort combined_other_combine)

lemma combined_env_steps: "combined c sigs w \<Longrightarrow> combined c sigs (fold env_step es w)"
  by (induction es arbitrary: w) (simp_all add: combined_env_step)

lemma anyAbortSignal_fst [simp]: "fst (anyAbortSignal sigs w) = next_ctrl w"
  by (simp add: anyAbortSignal_def Let_def)

lemma anyAbortSignal_loop_sig_aborted [simp]:
  "sig_aborted (anyAbortSignal_loop c sigs rest w) = sig_aborted w"
  by (induction c sigs rest w rule: anyAbortSignal_loop.induct) simp_all

lemma anyAbortSignal_sig_aborted [simp]:
  "sig_aborted (snd (anyAbortSignal sigs w)) = sig_aborted w"
  by (simp add: anyAbortSignal_def Let_def)

text \<open>
  \<^bold>\<open>C5.\<close> \<^verbatim>\<open>anyAbortSignal\<close> on any list of signals, each aborted, pending or
  absent, returns a signal that has aborted on return exactly when one of the inputs
  had. From then on, whatever inputs abort and whatever further calls of the
  combinator are made, in any order: the returned signal has aborted exactly when some
  input has; it has had exactly one \<^verbatim>\<open>abort\<close> event if it has aborted and none
  otherwise; and its listener is attached to exactly the inputs given while it has not
  aborted, and to no signal once it has.
\<close>

theorem anyAbortSignal_fires_once:
  "world_ok w \<Longrightarrow>
   (let c = fst (anyAbortSignal sigs w);
        w1 = snd (anyAbortSignal sigs w);
        w2 = fold env_step es w1
    in ctrl_aborted w1 c = any_aborted w sigs \<and>
       ctrl_aborted w2 c = any_aborted w2 sigs \<and>
       count_list (abort_events w2) c = (if ctrl_aborted w2 c then 1 else 0) \<and>
       (\<forall>s. (OnAbort c sigs \<in> set (sig_listeners w2 s)) =
            (\<not> ctrl_aborted w2 c \<and> Some s \<in> set sigs)))"
proof -
  assume ok: "world_ok w"
  define c where "c = fst (anyAbortSignal sigs w)"
  define w1 where "w1 = snd (anyAbortSignal sigs w)"
  define w2 where "w2 = fold env_step es w1"
  have c1: "combined c sigs w1"
    using combined_new [OF ok, of sigs] by (simp add: c_def w1_def)
  then have c2: "combined c sigs w2"
    unfolding w2_def by (rule combined_env_steps)
  have "any_aborted w1 sigs = any_aborted w sigs"
    by (simp add: any_aborted_iff w1_def)
  then have "ctrl_aborted w1 c = any_aborted w sigs \<and>
       ctrl_aborted w2 c = any_aborted w2 sigs \<and>
       count_list (abort_events w2) c = (if ctrl_aborted w2 c then 1 else 0) \<and>
       (\<forall>s. (OnAbort c sigs \<in> set (sig_listeners w2 s)) =
            (\<not> ctrl_aborted w2 c \<and> Some s \<in> set sigs))"
    using c1 c2 by (simp add: combined_def attached_def)
  then show ?thesis
    unfolding Let_def c_def w1_def w2_def .
qed


lemma world_ok_new: "world_ok (new_world ab)"
  by (simp add: world_ok_def new_world_def)

lemma world_ok_onAbort:
  assumes "world_ok w" and "c < next_ctrl w"
  shows "world_ok (onAbort c sigs w)"
  unfolding world_ok_def
proof (intro conjI allI impI)
  have d: "distinct (sig_listeners w s)" for s
    using assms(1) by (simp add: world_ok_def)
  show "distinct (sig_listeners (onAbort c sigs w) s)" for s
    using onAbort_listeners [of w s c sigs, OF d] by simp
  show "ctrl l < next_ctrl (onAbort c sigs w)"
    if "l \<in> set (sig_listeners (onAbort c sigs w) s)" for s l
  proof -
    have "l \<in> set (sig_listeners w s)"
      using that onAbort_listeners [of w s c sigs, OF d] by (auto split: if_splits)
    then show ?thesis
      using assms(1) unfolding world_ok_def by fastforce
  qed
  show "c' < next_ctrl (onAbort c sigs w)" if "c' \<in> set (abort_events (onAbort c sigs w))" for c'
  proof (cases "c' = c")
    case True
    then show ?thesis using assms(2) by simp
  next
    case False
    then have "c' \<in> set (abort_events w)"
      using that by (auto split: if_splits)
    then show ?thesis
      using assms(1) unfolding world_ok_def by fastforce
  qed
qed

lemma world_ok_add:
  assumes "world_ok w" and "ctrl l < next_ctrl w"
  shows "world_ok (addEventListener s l w)"
  unfolding world_ok_def
proof (intro conjI allI impI)
  have d: "distinct (sig_listeners w s')" for s'
    using assms(1) by (simp add: world_ok_def)
  show "distinct (sig_listeners (addEventListener s l w) s')" for s'
    using addEventListener_listeners [of w s' s l, OF d] by simp
  show "ctrl l' < next_ctrl (addEventListener s l w)"
    if "l' \<in> set (sig_listeners (addEventListener s l w) s')" for s' l'
  proof (cases "l' = l")
    case True
    then show ?thesis using assms(2) by simp
  next
    case False
    then have "l' \<in> set (sig_listeners w s')"
      using that addEventListener_listeners [of w s' s l, OF d] by (auto split: if_splits)
    then show ?thesis
      using assms(1) unfolding world_ok_def by fastforce
  qed
  show "c' < next_ctrl (addEventListener s l w)"
    if "c' \<in> set (abort_events (addEventListener s l w))" for c'
    using that assms(1) unfolding world_ok_def by fastforce
qed

lemma world_ok_loop:
  assumes "world_ok w" and "c < next_ctrl w"
  shows "world_ok (anyAbortSignal_loop c sigs rest w)"
  using assms
proof (induction c sigs rest w rule: anyAbortSignal_loop.induct)
  case (1 c sigs w)
  then show ?case by simp
next
  case (2 c sigs rest w)
  then show ?case by simp
next
  case (3 c sigs s rest w)
  show ?case
  proof (cases "sig_aborted w s")
    case True
    then show ?thesis
      using world_ok_onAbort [OF "3.prems"] by simp
  next
    case False
    have "world_ok (addEventListener s (OnAbort c sigs) w)"
      using world_ok_add [OF "3.prems"(1), of "OnAbort c sigs" s] "3.prems"(2) by simp
    then show ?thesis
      using "3.IH" [OF False] "3.prems"(2) False by simp
  qed
qed

lemma world_ok_combine: "world_ok w \<Longrightarrow> world_ok (snd (anyAbortSignal sigs w))"
proof -
  assume ok: "world_ok w"
  let ?w = "w\<lparr>next_ctrl := Suc (next_ctrl w),
              ctrl_aborted := (ctrl_aborted w)(next_ctrl w := False)\<rparr>"
  have "world_ok ?w"
    unfolding world_ok_def
  proof (intro conjI allI impI)
    show "distinct (sig_listeners ?w s)" for s
      using ok by (simp add: world_ok_def)
    show "ctrl l < next_ctrl ?w" if "l \<in> set (sig_listeners ?w s)" for s l
    proof -
      have "ctrl l < next_ctrl w"
        using that ok unfolding world_ok_def by fastforce
      then show ?thesis by simp
    qed
    show "c < next_ctrl ?w" if "c \<in> set (abort_events ?w)" for c
    proof -
      have "c < next_ctrl w"
        using that ok unfolding world_ok_def by fastforce
      then show ?thesis by simp
    qed
  qed
  then show ?thesis
    using world_ok_loop [of ?w "next_ctrl w" sigs sigs]
    by (simp add: anyAbortSignal_def Let_def)
qed

lemma world_ok_deliver: "world_ok w \<Longrightarrow> world_ok (deliver_abort s l w)"
proof (cases "l \<in> set (sig_listeners w s)")
  case False
  assume "world_ok w"
  then show ?thesis
    using False by (simp add: deliver_abort_def)
next
  case True
  assume ok: "world_ok w"
  obtain c sigs where l: "l = OnAbort c sigs"
    by (cases l)
  have "ctrl l < next_ctrl w"
    using True ok unfolding world_ok_def by fastforce
  then show ?thesis
    using True world_ok_onAbort [OF ok, of c sigs] l by (simp add: deliver_abort_def)
qed

lemma world_ok_fold_deliver: "world_ok w \<Longrightarrow> world_ok (fold (deliver_abort s) ls w)"
  by (induction ls arbitrary: w) (simp_all add: world_ok_deliver)

lemma world_ok_signal_abort: "world_ok w \<Longrightarrow> world_ok (signal_abort s w)"
proof -
  assume ok: "world_ok w"
  have "world_ok (w\<lparr>sig_aborted := (sig_aborted w)(s := True)\<rparr>)"
    using ok by (simp add: world_ok_def)
  then show ?thesis
    using ok by (simp add: signal_abort_def Let_def world_ok_fold_deliver)
qed

lemma world_ok_env_steps: "world_ok w \<Longrightarrow> world_ok (fold env_step es w)"
proof (induction es arbitrary: w)
  case Nil
  then show ?case by simp
next
  case (Cons e es)
  have "world_ok (env_step e w)"
    using Cons.prems by (cases e) (simp_all add: world_ok_signal_abort world_ok_combine)
  then show ?case
    using Cons.IH by simp
qed

theorem anyAbortSignal_fires_once_witness:
  "world_ok ex_world \<and>
   (let c = fst (anyAbortSignal [Some 1, None, Some 2, Some 1] ex_world);
        w1 = snd (anyAbortSignal [Some 1, None, Some 2, Some 1] ex_world);
        w2 = fold env_step [Combine [Some 2, Some 3], Fire 2, Fire 1] w1
    in ctrl_aborted w1 c = any_aborted ex_world [Some 1, None, Some 2, Some 1] \<and>
       ctrl_aborted w2 c = any_aborted w2 [Some 1, None, Some 2, Some 1] \<and>
       count_list (abort_events w2) c = (if ctrl_aborted w2 c then 1 else 0) \<and>
       (\<forall>s. (OnAbort c [Some 1, None, Some 2, Some 1] \<in> set (sig_listeners w2 s)) =
            (\<not> ctrl_aborted w2 c \<and> Some s \<in> set [Some 1, None, Some 2, Some 1]))) \<and>
   abort_events (fold env_step [Combine [Some 2, Some 3], Fire 2, Fire 1]
     (snd (anyAbortSignal [Some 1, None, Some 2, Some 1] ex_world))) = [0, 1] \<and>
   ctrl_aborted (snd (anyAbortSignal [Some 1, Some 9, Some 2] ex_world)) 0 \<and>
   sig_listeners (snd (anyAbortSignal [Some 1, Some 9, Some 2] ex_world)) 1 = []"
proof -
  have a: "world_ok ex_world"
    by (simp add: ex_world_def world_ok_new)
  have b: "abort_events (fold env_step [Combine [Some 2, Some 3], Fire 2, Fire 1]
     (snd (anyAbortSignal [Some 1, None, Some 2, Some 1] ex_world))) = [0, 1]"
    by (simp add: ex_world_def abort_defs)
  have c: "ctrl_aborted (snd (anyAbortSignal [Some 1, Some 9, Some 2] ex_world)) 0 \<and>
   sig_listeners (snd (anyAbortSignal [Some 1, Some 9, Some 2] ex_world)) 1 = []"
    by (simp add: ex_world_def abort_defs)
  show ?thesis
    using a b c anyAbortSignal_fires_once [OF a, of "[Some 1, None, Some 2, Some 1]"
        "[Combine [Some 2, Some 3], Fire 2, Fire 1]"]
    by blast
qed


end
